theory Spec2Isabelle
  imports Complex_Main
begin

section \<open>JavaScript strings\<close>

text \<open>
  The bloat command of \<^verbatim>\<open>cli/commands/bloat.js\<close> works on the text that git prints.
  Strings are modelled as \<^typ>\<open>string\<close>; the whitespace class and the case mapping are
  the ASCII ones (git prints object names, decimal sizes and paths; the extension and
  category tables are ASCII).
\<close>

definition isUpper :: "char \<Rightarrow> bool" where
  "isUpper ch = ((65::nat) \<le> of_char ch \<and> of_char ch \<le> (90::nat))"

definition lowerChar :: "char \<Rightarrow> char" where
  "lowerChar ch = (if isUpper ch then char_of (of_char ch + (32::nat)) else ch)"

text \<open>\<^verbatim>\<open>s.toLowerCase()\<close>\<close>

definition toLowerCase :: "string \<Rightarrow> string" where
  "toLowerCase s = map lowerChar s"

text \<open>\<^verbatim>\<open>s.split(sep)\<close> for a one-character separator: never an empty array.\<close>

fun splitOn :: "char \<Rightarrow> string \<Rightarrow> string list" where
  "splitOn sep [] = [[]]"
| "splitOn sep (ch # s) =
     (if ch = sep then [] # splitOn sep s
      else (case splitOn sep s of
              [] \<Rightarrow> [[ch]]
            | part # parts \<Rightarrow> (ch # part) # parts))"

text \<open>\<^verbatim>\<open>arr.pop()\<close> as the value it returns: \<open>undefined\<close> on an empty array.\<close>

fun pop :: "'a list \<Rightarrow> 'a option" where
  "pop [] = None"
| "pop [x] = Some x"
| "pop (x # y # ys) = pop (y # ys)"

fun startsWith :: "string \<Rightarrow> string \<Rightarrow> bool" where
  "startsWith s [] = True"
| "startsWith [] (ch # t) = False"
| "startsWith (x # s) (ch # t) = (x = ch \<and> startsWith s t)"

text \<open>\<^verbatim>\<open>s.includes(t)\<close>: \<open>t\<close> occurs in \<open>s\<close> as a contiguous substring.\<close>

fun includesStr :: "string \<Rightarrow> string \<Rightarrow> bool" where
  "includesStr [] t = (t = [])"
| "includesStr (x # s) t = (startsWith (x # s) t \<or> includesStr s t)"

text \<open>\<^verbatim>\<open>parts.join(sep)\<close>\<close>

fun join :: "string \<Rightarrow> string list \<Rightarrow> string" where
  "join sep [] = []"
| "join sep [part] = part"
| "join sep (part # next # parts) = part @ sep @ join sep (next # parts)"

text \<open>The white space of \<^verbatim>\<open>trim\<close>, \<^verbatim>\<open>\s\<close> and \<^verbatim>\<open>parseInt\<close>: tab to carriage return, and space.\<close>

definition isSpace :: "char \<Rightarrow> bool" where
  "isSpace ch = (ch = CHR '' '' \<or> ((9::nat) \<le> of_char ch \<and> of_char ch \<le> (13::nat)))"

text \<open>\<^verbatim>\<open>s.trim()\<close>\<close>

definition trim :: "string \<Rightarrow> string" where
  "trim s = rev (dropWhile isSpace (rev (dropWhile isSpace s)))"

text \<open>
  \<^verbatim>\<open>s.split(/\s+/)\<close>: the pieces between maximal runs of white space. Leading or
  trailing white space gives an empty first or last piece; the result is never empty.
\<close>

function splitWs :: "string \<Rightarrow> string list" where
  "splitWs s =
     (if dropWhile (\<lambda>ch. \<not> isSpace ch) s = [] then [s]
      else takeWhile (\<lambda>ch. \<not> isSpace ch) s
             # splitWs (dropWhile isSpace (dropWhile (\<lambda>ch. \<not> isSpace ch) s)))"
  by pat_completeness auto
termination
proof (relation "measure length")
  show "wf (measure length)" by simp
next
  fix s :: string
  assume ne: "dropWhile (\<lambda>ch. \<not> isSpace ch) s \<noteq> []"
  have a: "length (dropWhile isSpace (dropWhile (\<lambda>ch. \<not> isSpace ch) s))
            < length (dropWhile (\<lambda>ch. \<not> isSpace ch) s)"
  proof (cases "dropWhile (\<lambda>ch. \<not> isSpace ch) s")
    case Nil
    with ne show ?thesis by simp
  next
    case (Cons x xs)
    then have "isSpace x" using hd_dropWhile [of "\<lambda>ch. \<not> isSpace ch" s] by auto
    then show ?thesis using Cons
      by (simp add: le_imp_less_Suc length_dropWhile_le)
  qed
  have b: "length (dropWhile (\<lambda>ch. \<not> isSpace ch) s) \<le> length s"
    by (rule length_dropWhile_le)
  from a b show "(dropWhile isSpace (dropWhile (\<lambda>ch. \<not> isSpace ch) s), s) \<in> measure length"
    by simp
qed

text \<open>
  \<^verbatim>\<open>parseInt(s, 10)\<close>: leading white space is skipped, one sign is read, then the
  longest run of decimal digits; \<open>None\<close> is \<^verbatim>\<open>NaN\<close> (no digit there). Numbers are
  integers of any size: the rounding of values beyond \<open>2^53\<close> is not modelled.
\<close>

definition isDigit :: "char \<Rightarrow> bool" where
  "isDigit ch = ((48::nat) \<le> of_char ch \<and> of_char ch \<le> (57::nat))"

definition digitValue :: "char \<Rightarrow> int" where
  "digitValue ch = int (of_char ch) - 48"

definition digitsValue :: "string \<Rightarrow> int" where
  "digitsValue ds = foldl (\<lambda>acc ch. acc * 10 + digitValue ch) 0 ds"

definition parseDigits :: "string \<Rightarrow> int option" where
  "parseDigits s = (if takeWhile isDigit s = [] then None
                    else Some (digitsValue (takeWhile isDigit s)))"

fun parseSigned :: "string \<Rightarrow> int option" where
  "parseSigned [] = None"
| "parseSigned (ch # s) =
     (if ch = CHR ''-'' then map_option uminus (parseDigits s)
      else if ch = CHR ''+'' then parseDigits s
      else parseDigits (ch # s))"

definition parseInt :: "string \<Rightarrow> int option" where
  "parseInt s = parseSigned (dropWhile isSpace s)"

section \<open>Classification\<close>

text \<open>The table of \<^verbatim>\<open>categorizeFile\<close>, in the order \<^verbatim>\<open>Object.entries\<close> walks it.\<close>

definition categories :: "(string \<times> string list) list" where
  "categories =
    [(''binary'', [''exe'', ''dll'', ''so'', ''dylib'', ''bin'', ''obj'', ''o'', ''a'']),
     (''archive'', [''zip'', ''tar'', ''gz'', ''bz2'', ''xz'', ''7z'', ''rar'', ''tgz'']),
     (''image'', [''jpg'', ''jpeg'', ''png'', ''gif'', ''bmp'', ''tiff'', ''psd'', ''svg'',
                  ''webp'', ''ico'']),
     (''video'', [''mp4'', ''avi'', ''mov'', ''wmv'', ''flv'', ''webm'', ''mkv'']),
     (''audio'', [''mp3'', ''wav'', ''ogg'', ''flac'', ''aac'', ''m4a'']),
     (''data'', [''db'', ''sqlite'', ''sql'', ''csv'', ''json'', ''xml'', ''parquet'']),
     (''document'', [''pdf'', ''doc'', ''docx'', ''xls'', ''xlsx'', ''ppt'', ''pptx'']),
     (''package'', [''jar'', ''war'', ''ear'', ''whl'', ''gem'', ''nupkg'']),
     (''nodemodules'', [''node_modules'']),
     (''log'', [''log''])]"

text \<open>
  \<^verbatim>\<open>path.split('.').pop()?.toLowerCase() || ''\<close>: the text after the last dot, lower-cased;
  the whole path when it has no dot.
\<close>

definition extOf :: "string \<Rightarrow> string" where
  "extOf path = (case pop (splitOn CHR ''.'' path) of
                   None \<Rightarrow> []
                 | Some seg \<Rightarrow> toLowerCase seg)"

text \<open>
  The loop over the table: the first category whose extension list holds \<open>ext\<close> or
  whose name occurs in the path; \<open>other\<close> when the table is exhausted.
\<close>

fun categorizeLoop :: "(string \<times> string list) list \<Rightarrow> string \<Rightarrow> string \<Rightarrow> string" where
  "categorizeLoop [] ext path = ''other''"
| "categorizeLoop ((category, exts) # rest) ext path =
     (if ext \<in> set exts \<or> includesStr path category then category
      else categorizeLoop rest ext path)"

definition categorizeFile :: "string \<Rightarrow> string" where
  "categorizeFile path = categorizeLoop categories (extOf path) path"

section \<open>The repository as the command sees it\<close>

text \<open>
  Every access to the repository is a synchronous child process. The model takes what
  each process prints as data: \<open>None\<close> is a process that fails (\<^verbatim>\<open>execSync\<close> throws).
  \<^item> \<open>revListAll\<close>, \<open>revListHead\<close>: \<^verbatim>\<open>git rev-list --objects --all\<close> and \<^verbatim>\<open>... HEAD\<close>;
  \<^item> \<open>catFile\<close>: \<^verbatim>\<open>git cat-file --batch-check="%(objectsize) %(objectname)"\<close> on the
    given standard input;
  \<^item> \<open>duKilobytes\<close>: the number \<^verbatim>\<open>du -sk .git\<close> prints;
  \<^item> \<open>findBytes\<close>: the number the \<^verbatim>\<open>find | stat | awk\<close> pipeline prints (0 when it
    prints nothing).
  Numbers are integers; an output of \<^verbatim>\<open>du\<close> or of the pipeline that \<^verbatim>\<open>parseInt\<close>
  cannot read (\<^verbatim>\<open>NaN\<close>) is not modelled.
\<close>

record repo =
  isGitRepo :: bool
  revListAll :: "string option"
  revListHead :: "string option"
  catFile :: "string \<Rightarrow> string option"
  duKilobytes :: "int option"
  findBytes :: "int option"

record obj =
  hash :: string
  path :: string
  obj_size :: int

subsection \<open>A \<^verbatim>\<open>Map\<close> in insertion order\<close>

text \<open>
  \<^verbatim>\<open>map.set(k, v)\<close> replaces the value of a key already present, where the key
  stands, and appends a new key at the end.
\<close>

fun mapSet :: "'k \<Rightarrow> 'v \<Rightarrow> ('k \<times> 'v) list \<Rightarrow> ('k \<times> 'v) list" where
  "mapSet k v [] = [(k, v)]"
| "mapSet k v ((k', v') # m) =
     (if k' = k then (k, v) # m else (k', v') # mapSet k v m)"

fun mapGet :: "('k \<times> 'v) list \<Rightarrow> 'k \<Rightarrow> 'v option" where
  "mapGet [] k = None"
| "mapGet ((k', v') # m) k = (if k' = k then Some v' else mapGet m k)"

definition mapKeys :: "('k \<times> 'v) list \<Rightarrow> 'k list" where
  "mapKeys m = map fst m"

subsection \<open>\<^verbatim>\<open>getAllObjects\<close>\<close>

text \<open>The loop over the lines of the listing, filling \<^verbatim>\<open>hashToPath\<close>.\<close>

fun recordPaths :: "string list \<Rightarrow> (string \<times> string) list \<Rightarrow> (string \<times> string) list" where
  "recordPaths [] hashToPath = hashToPath"
| "recordPaths (line # lines) hashToPath =
     (case splitWs line of
        [] \<Rightarrow> recordPaths lines hashToPath
      | [h] \<Rightarrow> recordPaths lines (mapSet h [] hashToPath)
      | h # p # ps \<Rightarrow> recordPaths lines (mapSet h (join '' '' (p # ps)) hashToPath))"

text \<open>\<^verbatim>\<open>hashToPath.get(hash) || '(unknown)'\<close>: the empty string is falsy.\<close>

definition pathOrUnknown :: "(string \<times> string) list \<Rightarrow> string \<Rightarrow> string" where
  "pathOrUnknown hashToPath h =
     (case mapGet hashToPath h of
        None \<Rightarrow> ''(unknown)''
      | Some p \<Rightarrow> if p = [] then ''(unknown)'' else p)"

text \<open>
  The loop over the lines of one answer: a line is split at single spaces, its first piece
  read as the size and its second as the hash; an object is pushed when the size is a
  number and the hash is a non-empty string.
\<close>

fun pushSizes :: "(string \<times> string) list \<Rightarrow> string list \<Rightarrow> obj list \<Rightarrow> obj list" where
  "pushSizes hashToPath [] objects = objects"
| "pushSizes hashToPath (line # lines) objects =
     (case splitOn CHR '' '' line of
        sizeText # h # rest \<Rightarrow>
          (case parseInt sizeText of
             Some sizeNum \<Rightarrow>
               if h \<noteq> [] then
                 pushSizes hashToPath lines
                   (objects @ [\<lparr>hash = h, path = pathOrUnknown hashToPath h, obj_size = sizeNum\<rparr>])
               else pushSizes hashToPath lines objects
           | None \<Rightarrow> pushSizes hashToPath lines objects)
      | _ \<Rightarrow> pushSizes hashToPath lines objects)"

text \<open>
  \<^verbatim>\<open>arr.slice(i, j)\<close>: a negative index counts from the end of the array, and both
  indices are clamped to the array.
\<close>

definition relativeIndex :: "int \<Rightarrow> nat \<Rightarrow> nat" where
  "relativeIndex k len = (if k < 0 then nat (max (int len + k) 0) else min (nat k) len)"

definition slice :: "int \<Rightarrow> int \<Rightarrow> 'a list \<Rightarrow> 'a list" where
  "slice i j xs =
     take (relativeIndex j (length xs) - relativeIndex i (length xs))
       (drop (relativeIndex i (length xs)) xs)"

text \<open>
  The batch loop \<^verbatim>\<open>for (let i = 0; i < hashes.length; i += batchSize)\<close>. A failing
  batch is skipped. The source fixes \<open>batchSize = 500\<close>; with a batch size of 0 the loop
  would never advance, which is the value \<open>None\<close>.
\<close>

function sizeLoop ::
  "(string \<Rightarrow> string option) \<Rightarrow> (string \<times> string) list \<Rightarrow> string list \<Rightarrow> nat \<Rightarrow> nat
     \<Rightarrow> obj list \<Rightarrow> obj list option" where
  "sizeLoop cf hashToPath hashes batchSize i objects =
     (if i < length hashes then
        (if batchSize = 0 then None
         else (case cf (join ''\<newline>'' (slice (int i) (int (i + batchSize)) hashes)) of
                 None \<Rightarrow> sizeLoop cf hashToPath hashes batchSize (i + batchSize) objects
               | Some sizeOutput \<Rightarrow>
                   sizeLoop cf hashToPath hashes batchSize (i + batchSize)
                     (pushSizes hashToPath (splitOn CHR ''\<newline>'' (trim sizeOutput)) objects)))
      else Some objects)"
  by pat_completeness auto
termination
  by (relation "measure (\<lambda>(cf, hashToPath, hashes, batchSize, i, objects). length hashes - i)")
     auto

text \<open>
  \<^verbatim>\<open>arr.sort(cmp)\<close>: the language makes the sort stable, so for a consistent comparator
  the result is the one of a stable insertion sort, where an element goes before the first
  element that it does not have to follow.
\<close>

fun insertWith :: "('a \<Rightarrow> 'a \<Rightarrow> int) \<Rightarrow> 'a \<Rightarrow> 'a list \<Rightarrow> 'a list" where
  "insertWith cmp x [] = [x]"
| "insertWith cmp x (y # ys) =
     (if cmp x y \<le> 0 then x # y # ys else y # insertWith cmp x ys)"

definition sortWith :: "('a \<Rightarrow> 'a \<Rightarrow> int) \<Rightarrow> 'a list \<Rightarrow> 'a list" where
  "sortWith cmp xs = foldr (insertWith cmp) xs []"

text \<open>\<^verbatim>\<open>(a, b) => b.size - a.size\<close>\<close>

definition bySizeDesc :: "obj \<Rightarrow> obj \<Rightarrow> int" where
  "bySizeDesc a b = obj_size b - obj_size a"

datatype error = FailedToGetObjects

definition revList :: "repo \<Rightarrow> bool \<Rightarrow> string option" where
  "revList R includeDeleted = (if includeDeleted then revListAll R else revListHead R)"

text \<open>The identifier-to-path map that \<^verbatim>\<open>getAllObjects\<close> builds from the listing.\<close>

definition hashToPathOf :: "string \<Rightarrow> (string \<times> string) list" where
  "hashToPathOf output = recordPaths (splitOn CHR ''\<newline>'' (trim output)) []"

text \<open>The objects as pushed, before the final sort.\<close>

definition pushedObjects :: "nat \<Rightarrow> repo \<Rightarrow> string \<Rightarrow> obj list option" where
  "pushedObjects batchSize R output =
     sizeLoop (catFile R) (hashToPathOf output) (mapKeys (hashToPathOf output)) batchSize 0 []"

text \<open>
  \<^verbatim>\<open>getAllObjects\<close> with the batch size as a parameter: \<open>Inl\<close> is the error it
  throws when the listing fails, \<open>None\<close> a loop that does not end.
\<close>

definition getAllObjectsWith :: "nat \<Rightarrow> repo \<Rightarrow> bool \<Rightarrow> (error + obj list) option" where
  "getAllObjectsWith batchSize R includeDeleted =
     (case revList R includeDeleted of
        None \<Rightarrow> Some (Inl FailedToGetObjects)
      | Some output \<Rightarrow>
          (case pushedObjects batchSize R output of
             None \<Rightarrow> None
           | Some objects \<Rightarrow> Some (Inr (sortWith bySizeDesc objects))))"


subsection \<open>Directory sizes\<close>

text \<open>Both measurements report 0 when their process fails.\<close>

definition getGitDirSize :: "repo \<Rightarrow> int" where
  "getGitDirSize R = (case duKilobytes R of None \<Rightarrow> 0 | Some kb \<Rightarrow> kb * 1024)"

definition getWorkingDirSize :: "repo \<Rightarrow> int" where
  "getWorkingDirSize R = (case findBytes R of None \<Rightarrow> 0 | Some n \<Rightarrow> n)"

section \<open>Recommendations\<close>

text \<open>The advisory lines, by what they say; \<open>ObjectsOver10MB\<close> carries the count it prints.\<close>

datatype recommendation =
    NodeModulesInHistory
  | VendorInHistory
  | LargeMediaFiles
  | PackageFilesInHistory
  | GitDir3xLarger
  | RunGitGc
  | ObjectsOver10MB nat
  | LooksHealthy

definition generateRecommendations :: "obj list \<Rightarrow> int \<Rightarrow> int \<Rightarrow> recommendation list" where
  "generateRecommendations objects gitSize workingSize =
     (let largeObjects = filter (\<lambda>ob. obj_size ob > 10 * 1024 * 1024) objects;
          hasNodeModules = list_ex (\<lambda>ob. includesStr (path ob) ''node_modules'') objects;
          hasVendor = list_ex (\<lambda>ob. includesStr (path ob) ''vendor/'') objects;
          hasLargeMedia = list_ex (\<lambda>ob. obj_size ob > 5 * 1024 * 1024 \<and>
              categorizeFile (path ob) \<in> set [''image'', ''video'', ''audio'']) objects;
          hasPackages = list_ex (\<lambda>ob. obj_size ob > 1024 * 1024 \<and>
              categorizeFile (path ob) \<in> set [''package'', ''archive'']) objects;
          recommendations =
              (if hasNodeModules then [NodeModulesInHistory] else [])
            @ (if hasVendor then [VendorInHistory] else [])
            @ (if hasLargeMedia then [LargeMediaFiles] else [])
            @ (if hasPackages then [PackageFilesInHistory] else [])
            @ (if gitSize > workingSize * 3 then [GitDir3xLarger, RunGitGc] else [])
            @ (if length largeObjects > 10 then [ObjectsOver10MB (length largeObjects)] else [])
      in if recommendations = [] then [LooksHealthy] else recommendations)"

section \<open>The command\<close>

text \<open>
  The value of \<^verbatim>\<open>a / b\<close> on integers: the quotient, or what the language gives for
  a zero divisor, which raises no error. The rounding to a double and the formatting by
  \<^verbatim>\<open>toFixed\<close> are not modelled.
\<close>

datatype quotient = Finite rat | PlusInfinity | MinusInfinity | NaN

definition divide :: "int \<Rightarrow> int \<Rightarrow> quotient" where
  "divide a b =
     (if b \<noteq> 0 then Finite (of_int a / of_int b)
      else if a > 0 then PlusInfinity
      else if a < 0 then MinusInfinity
      else NaN)"

text \<open>
  The options as the command reads them: \<open>limit\<close> and \<open>minSize\<close> are the numbers
  parsed from \<^verbatim>\<open>--limit\<close> (20 when absent) and \<^verbatim>\<open>--min-size\<close> (1048576 when
  absent), as integers (\<^verbatim>\<open>NaN\<close> is not modelled). \<open>jsonOutput\<close> is
  \<^verbatim>\<open>options.output === 'json'\<close>.
\<close>

record options =
  includeDeleted :: bool
  limit :: int
  minSize :: int
  jsonOutput :: bool

record stats =
  gitDirSize :: int
  workingDirSize :: int
  totalObjectSize :: int
  objectCount :: nat
  largeObjectCount :: nat
  ratio :: quotient

record file_entry = obj +
  category :: string

definition withCategory :: "obj \<Rightarrow> file_entry" where
  "withCategory ob =
     \<lparr>hash = hash ob, path = path ob, obj_size = obj_size ob, category = categorizeFile (path ob)\<rparr>"

text \<open>\<^verbatim>\<open>objects.reduce((sum, o) => sum + o.size, 0)\<close>\<close>

definition sumSizes :: "obj list \<Rightarrow> int" where
  "sumSizes objects = foldl (\<lambda>acc ob. acc + obj_size ob) 0 objects"

text \<open>
  The category breakdown of the text report:
  \<^verbatim>\<open>categories.set(cat, (categories.get(cat) || 0) + obj.size)\<close> for each object.
\<close>

definition orZero :: "int option \<Rightarrow> int" where
  "orZero v = (case v of None \<Rightarrow> 0 | Some n \<Rightarrow> if n = 0 then 0 else n)"

fun categoryLoop :: "obj list \<Rightarrow> (string \<times> int) list \<Rightarrow> (string \<times> int) list" where
  "categoryLoop [] cats = cats"
| "categoryLoop (ob # objects) cats =
     categoryLoop objects
       (mapSet (categorizeFile (path ob))
          (orZero (mapGet cats (categorizeFile (path ob))) + obj_size ob) cats)"

definition categoryTotals :: "obj list \<Rightarrow> (string \<times> int) list" where
  "categoryTotals objects = categoryLoop objects []"

record report =
  stats :: stats
  largestFiles :: "file_entry list"
  recommendations :: "recommendation list"
  sizeByCategory :: "(string \<times> int) list option"

text \<open>
  What the command computes from the inventory and the two directory sizes. The JSON
  output holds the statistics, the largest files and the recommendations; the text report
  shows the same figures and, besides, the size by category (entries over 1 MB, largest
  first). Rendering (colours, tables, byte units) is not modelled.
\<close>

definition analyze :: "obj list \<Rightarrow> int \<Rightarrow> int \<Rightarrow> options \<Rightarrow> report" where
  "analyze objects gitSize workingSize opts =
     (let filteredObjects = filter (\<lambda>ob. obj_size ob \<ge> minSize opts) objects
      in \<lparr>stats = \<lparr>gitDirSize = gitSize,
                    workingDirSize = workingSize,
                    totalObjectSize = sumSizes objects,
                    objectCount = length objects,
                    largeObjectCount = length filteredObjects,
                    ratio = divide gitSize workingSize\<rparr>,
          largestFiles = map withCategory (slice 0 (limit opts) filteredObjects),
          recommendations = generateRecommendations objects gitSize workingSize,
          sizeByCategory =
            (if jsonOutput opts then None
             else Some (filter (\<lambda>(cat, total). total > 1024 * 1024)
                          (sortWith (\<lambda>a b. snd b - snd a) (categoryTotals objects))))\<rparr>)"

datatype exit = NotAGitRepository | FailedToAnalyze

text \<open>
  \<^verbatim>\<open>bloatCommand\<close>: \<open>Inl\<close> is an error message followed by \<^verbatim>\<open>process.exit(1)\<close>.
  The batch size of the size lookups is a parameter here, 500 in the command.
\<close>

definition bloatCommandWith :: "nat \<Rightarrow> repo \<Rightarrow> options \<Rightarrow> (exit + report) option" where
  "bloatCommandWith batchSize R opts =
     (if \<not> isGitRepo R then Some (Inl NotAGitRepository)
      else (case getAllObjectsWith batchSize R (includeDeleted opts) of
              None \<Rightarrow> None
            | Some (Inl err) \<Rightarrow> Some (Inl FailedToAnalyze)
            | Some (Inr objects) \<Rightarrow>
                Some (Inr (analyze objects (getGitDirSize R) (getWorkingDirSize R) opts))))"

definition bloatCommand :: "repo \<Rightarrow> options \<Rightarrow> (exit + report) option" where
  "bloatCommand R opts = bloatCommandWith 500 R opts"

section \<open>Vocabulary of the specification\<close>

subsection \<open>Classification\<close>

text \<open>
  The category that the table gives an extension, taken alone: the first category whose
  list holds it.
\<close>

fun extCategoryIn :: "(string \<times> string list) list \<Rightarrow> string \<Rightarrow> string option" where
  "extCategoryIn [] ext = None"
| "extCategoryIn ((name, exts) # rest) ext =
     (if ext \<in> set exts then Some name else extCategoryIn rest ext)"

definition extCategory :: "string \<Rightarrow> string option" where
  "extCategory ext = extCategoryIn categories ext"

definition categoryNames :: "string list" where
  "categoryNames = map fst categories"

definition allExtensions :: "string list" where
  "allExtensions = concat (map snd categories)"

text \<open>
  The file name of a path is what follows its last slash; a path has no extension when
  its file name holds no dot.
\<close>

definition basename :: "string \<Rightarrow> string" where
  "basename p = rev (takeWhile (\<lambda>ch. ch \<noteq> CHR ''/'') (rev p))"

definition hasNoExtension :: "string \<Rightarrow> bool" where
  "hasNoExtension p = (CHR ''.'' \<notin> set (basename p))"

subsection \<open>The listing and the size answers\<close>

text \<open>The identifier and the path that a line of the listing names.\<close>

definition lineHash :: "string \<Rightarrow> string" where
  "lineHash line = (case splitWs line of [] \<Rightarrow> [] | h # ps \<Rightarrow> h)"

definition linePath :: "string \<Rightarrow> string" where
  "linePath line = (case splitWs line of [] \<Rightarrow> [] | h # ps \<Rightarrow> join '' '' ps)"

text \<open>The paths listed for an identifier, in the order of the listing.\<close>

definition pathsListed :: "string list \<Rightarrow> string \<Rightarrow> string list" where
  "pathsListed lines h = map linePath (filter (\<lambda>line. lineHash line = h) lines)"

definition listingLines :: "string \<Rightarrow> string list" where
  "listingLines output = splitOn CHR ''\<newline>'' (trim output)"



text \<open>A natural number in decimal, as \<^verbatim>\<open>%(objectsize)\<close> prints it.\<close>

fun showNat :: "nat \<Rightarrow> string" where
  "showNat n = (if n < 10 then [char_of (48 + n)]
                else showNat (n div 10) @ [char_of (48 + n mod 10)])"

text \<open>
  What \<^verbatim>\<open>git cat-file --batch-check="%(objectsize) %(objectname)"\<close> prints for a batch
  whose objects are all found, \<open>sz\<close> giving their sizes: one line \<^verbatim>\<open>size hash\<close> for
  each identifier, in the order asked.
\<close>

definition sizeLine :: "(string \<Rightarrow> nat) \<Rightarrow> string \<Rightarrow> string" where
  "sizeLine sz h = showNat (sz h) @ '' '' @ h"

definition batchCheck :: "(string \<Rightarrow> nat) \<Rightarrow> string list \<Rightarrow> string" where
  "batchCheck sz batch = concat (map (\<lambda>h. sizeLine sz h @ ''\<newline>'') batch)"

text \<open>The batches that the loop asks for: consecutive slices of \<open>n\<close> identifiers.\<close>

function chunks :: "nat \<Rightarrow> 'a list \<Rightarrow> 'a list list" where
  "chunks n xs = (if n = 0 \<or> xs = [] then [] else take n xs # chunks n (drop n xs))"
  by pat_completeness auto
termination
  by (relation "measure (\<lambda>(n, xs). length xs)") auto

text \<open>The answer to a batch: it fails, or every identifier of the batch is resolved.\<close>

definition batchFails :: "repo \<Rightarrow> string list \<Rightarrow> bool" where
  "batchFails R batch = (catFile R (join ''\<newline>'' batch) = None)"

definition batchResolved :: "repo \<Rightarrow> (string \<Rightarrow> nat) \<Rightarrow> string list \<Rightarrow> bool" where
  "batchResolved R sz batch = (catFile R (join ''\<newline>'' batch) = Some (batchCheck sz batch))"

text \<open>The inventory entry of a resolved identifier.\<close>

definition sized :: "(string \<times> string) list \<Rightarrow> (string \<Rightarrow> nat) \<Rightarrow> string \<Rightarrow> obj" where
  "sized hashToPath sz h =
     \<lparr>hash = h, path = pathOrUnknown hashToPath h, obj_size = int (sz h)\<rparr>"

text \<open>The objects that one batch adds to the inventory.\<close>

definition batchObjects ::
  "(string \<Rightarrow> string option) \<Rightarrow> (string \<times> string) list \<Rightarrow> string list \<Rightarrow> obj list" where
  "batchObjects cf hashToPath batch =
     (case cf (join ''\<newline>'' batch) of
        None \<Rightarrow> []
      | Some sizeOutput \<Rightarrow> pushSizes hashToPath (splitOn CHR ''\<newline>'' (trim sizeOutput)) [])"

subsection \<open>Sample repositories\<close>

definition sampleListing :: string where
  "sampleListing =
     ''aaa first.txt\<newline>bbb\<newline>aaa second.txt\<newline>ccc dir/x y.bin\<newline>''"

definition sampleSizes :: "string \<Rightarrow> nat" where
  "sampleSizes h = (if h = ''aaa'' then 10 else if h = ''bbb'' then 200
                    else if h = ''ccc'' then 200 else 0)"

definition sampleRepo :: repo where
  "sampleRepo =
     \<lparr>isGitRepo = True,
      revListAll = Some sampleListing,
      revListHead = Some ''aaa first.txt\<newline>bbb\<newline>'',
      catFile = (\<lambda>input. Some (batchCheck sampleSizes (splitOn CHR ''\<newline>'' input))),
      duKilobytes = Some 6000,
      findBytes = Some 1000000\<rparr>"

text \<open>The same repository when the batch \<^verbatim>\<open>aaa, bbb\<close> cannot be resolved.\<close>

definition flakyRepo :: repo where
  "flakyRepo =
     sampleRepo\<lparr>catFile := (\<lambda>input. if input = ''aaa\<newline>bbb'' then None
                                     else Some (batchCheck sampleSizes (splitOn CHR ''\<newline>'' input)))\<rparr>"



text \<open>A repository whose working tree cannot be measured.\<close>

definition unmeasuredRepo :: repo where
  "unmeasuredRepo = sampleRepo\<lparr>duKilobytes := Some 6, findBytes := None\<rparr>"

text \<open>The objects of the sample repository as they are pushed, and its inventory.\<close>

definition samplePushed :: "obj list" where
  "samplePushed =
     [\<lparr>hash = ''aaa'', path = ''second.txt'', obj_size = 10\<rparr>,
      \<lparr>hash = ''bbb'', path = ''(unknown)'', obj_size = 200\<rparr>,
      \<lparr>hash = ''ccc'', path = ''dir/x y.bin'', obj_size = 200\<rparr>]"

definition sampleInventory :: "obj list" where
  "sampleInventory =
     [\<lparr>hash = ''bbb'', path = ''(unknown)'', obj_size = 200\<rparr>,
      \<lparr>hash = ''ccc'', path = ''dir/x y.bin'', obj_size = 200\<rparr>,
      \<lparr>hash = ''aaa'', path = ''second.txt'', obj_size = 10\<rparr>]"

definition sampleObjects :: "obj list" where
  "sampleObjects =
     [\<lparr>hash = ''aaa'', path = ''vendor/lib.tar.gz'', obj_size = 2000000\<rparr>,
      \<lparr>hash = ''bbb'', path = ''src/app.js'', obj_size = 1000\<rparr>]"

definition sampleOptions :: options where
  "sampleOptions = \<lparr>includeDeleted = True, limit = 20, minSize = 1048576, jsonOutput = True\<rparr>"

section \<open>Properties of the classifier\<close>

lemma categorizeLoop_range:
  "categorizeLoop tbl ext p \<in> set (map fst tbl) \<union> {''other''}"
  by (induction tbl ext p rule: categorizeLoop.induct) auto

lemma categorizeLoop_unmatched:
  "ext \<notin> set (concat (map snd tbl)) \<Longrightarrow>
   \<forall>n \<in> set (map fst tbl). \<not> includesStr p n \<Longrightarrow>
   categorizeLoop tbl ext p = ''other''"
  by (induction tbl ext p rule: categorizeLoop.induct) auto

lemma splitOn_no_sep: "sep \<notin> set s \<Longrightarrow> splitOn sep s = [s]"
  by (induction s) auto

lemma splitOn_nonempty: "splitOn sep s \<noteq> []"
  by (induction s) (auto split: list.splits)

lemma splitOn_single: "splitOn sep s = [part] \<Longrightarrow> sep \<notin> set s \<and> part = s"
proof (induction s arbitrary: part)
  case Nil
  then show ?case by simp
next
  case (Cons ch s)
  obtain q qs where sp: "splitOn sep s = q # qs"
    using splitOn_nonempty [of sep s] by (cases "splitOn sep s") auto
  show ?case
  proof (cases "ch = sep")
    case True
    with Cons.prems sp show ?thesis by simp
  next
    case False
    with Cons.prems sp have "qs = []" "part = ch # q" by auto
    with sp Cons.IH [of q] have "sep \<notin> set s" "q = s" by auto
    with False \<open>part = ch # q\<close> show ?thesis by simp
  qed
qed

lemma takeWhile_snoc_sep:
  "takeWhile (\<lambda>ch. ch \<noteq> sep) (xs @ [sep]) = takeWhile (\<lambda>ch. ch \<noteq> sep) xs"
  by (induction xs) auto

lemma pop_splitOn:
  "pop (splitOn sep s) = Some (rev (takeWhile (\<lambda>ch. ch \<noteq> sep) (rev s)))"
proof (induction s)
  case Nil
  then show ?case by simp
next
  case (Cons ch s)
  obtain part parts where sp: "splitOn sep s = part # parts"
    using splitOn_nonempty [of sep s] by (cases "splitOn sep s") auto
  show ?case
  proof (cases "ch = sep")
    case True
    then show ?thesis using Cons sp by (simp add: takeWhile_snoc_sep)
  next
    case False
    show ?thesis
    proof (cases parts)
      case Nil
      with sp have ns: "sep \<notin> set s" and ps: "part = s" using splitOn_single by blast+
      from ns False have "\<forall>x \<in> set (rev s @ [ch]). x \<noteq> sep" by auto
      then have tw: "takeWhile (\<lambda>ch. ch \<noteq> sep) (rev s @ [ch]) = rev s @ [ch]"
        by (simp only: takeWhile_eq_all_conv)
      have "pop (splitOn sep (ch # s)) = Some (ch # s)" using False sp Nil ps by simp
      then show ?thesis unfolding rev.simps tw by simp
    next
      case (Cons q qs)
      have "sep \<in> set s"
      proof (rule ccontr)
        assume "sep \<notin> set s"
        then have "splitOn sep s = [s]" by (rule splitOn_no_sep)
        with sp Cons show False by simp
      qed
      then have "takeWhile (\<lambda>ch. ch \<noteq> sep) (rev s @ [ch]) = takeWhile (\<lambda>ch. ch \<noteq> sep) (rev s)"
        by (simp add: takeWhile_append1)
      then show ?thesis using False sp Cons \<open>pop (splitOn sep s) = _\<close>
        by simp
    qed
  qed
qed


lemma slash_before_dot:
  "CHR ''.'' \<notin> set (takeWhile (\<lambda>ch. ch \<noteq> CHR ''/'') r) \<Longrightarrow> CHR ''.'' \<in> set r \<Longrightarrow>
   CHR ''/'' \<in> set (takeWhile (\<lambda>ch. ch \<noteq> CHR ''.'') r)"
  by (induction r) (auto split: if_splits)

lemma lowerChar_slash: "lowerChar CHR ''/'' = CHR ''/''"
  by code_simp

lemma table_no_slash: "\<forall>e \<in> set allExtensions. CHR ''/'' \<notin> set e"
  by code_simp

lemma extOf_no_extension:
  assumes "hasNoExtension p"
  shows "extOf p = toLowerCase p \<or> extOf p \<notin> set allExtensions"
proof (cases "CHR ''.'' \<in> set p")
  case False
  then show ?thesis by (simp add: extOf_def splitOn_no_sep)
next
  case True
  then have "CHR ''.'' \<in> set (rev p)" by simp
  moreover from assms have "CHR ''.'' \<notin> set (takeWhile (\<lambda>ch. ch \<noteq> CHR ''/'') (rev p))"
    by (simp add: hasNoExtension_def basename_def)
  ultimately have "CHR ''/'' \<in> set (takeWhile (\<lambda>ch. ch \<noteq> CHR ''.'') (rev p))"
    by (rule slash_before_dot [rotated])
  then have "CHR ''/'' \<in> set (rev (takeWhile (\<lambda>ch. ch \<noteq> CHR ''.'') (rev p)))" by simp
  then have "lowerChar CHR ''/'' \<in> set (toLowerCase (rev (takeWhile (\<lambda>ch. ch \<noteq> CHR ''.'') (rev p))))"
    unfolding toLowerCase_def by (simp only: set_map image_eqI)
  then have "CHR ''/'' \<in> set (extOf p)"
    by (simp add: extOf_def pop_splitOn lowerChar_slash)
  with table_no_slash show ?thesis by blast
qed

text \<open>
  Claim C1: the extension of the path is looked up, whatever its case, in the whole table
  first, and a category name is searched in the path only when no extension of the table
  matches; a path whose extension is listed gets that extension's category, whatever
  category names occur in it. The function, which its own comment describes as
  categorizing a file by extension, tests for each category in turn the extension list
  \<^emph>\<open>or\<close> the name: \<^verbatim>\<open>archive/photo.jpg\<close> has the extension \<^verbatim>\<open>jpg\<close>, listed under
  \<^verbatim>\<open>image\<close>, and is classified \<^verbatim>\<open>archive\<close>, because that name occurs in the path and
  that category stands earlier in the table.
\<close>

theorem categorizeFile_name_overrides_extension:
  "extOf ''archive/photo.jpg'' = ''jpg'' \<and>
   extCategory ''jpg'' = Some ''image'' \<and>
   includesStr ''archive/photo.jpg'' ''archive'' \<and>
   categorizeFile ''archive/photo.jpg'' = ''archive'' \<and>
   categorizeFile ''archive/photo.jpg'' \<noteq> ''image''"
  by code_simp

text \<open>
  Claim C5, as the specification states it: the classifier is defined on every string,
  and the empty string and every path without a file extension are classified
  \<^verbatim>\<open>other\<close>. The path \<^verbatim>\<open>logs/output\<close> holds no dot, and the name \<^verbatim>\<open>log\<close> occurs in
  it: it is classified \<^verbatim>\<open>log\<close>.
\<close>

theorem categorizeFile_no_extension_counterexample:
  "hasNoExtension ''logs/output'' \<and> categorizeFile ''logs/output'' = ''log'' \<and>
   categorizeFile ''logs/output'' \<noteq> ''other''"
  by code_simp

text \<open>
  Claim C5, amended: the classifier returns one of the ten category names or
  \<^verbatim>\<open>other\<close> for every string; the empty string is classified \<^verbatim>\<open>other\<close>; a path
  without a file extension is classified \<^verbatim>\<open>other\<close> when no category name occurs in
  it and the path as a whole, lower-cased, is not an entry of the extension table.
\<close>

theorem categorizeFile_total:
  "categorizeFile p \<in> set categoryNames \<union> {''other''} \<and>
   categorizeFile [] = ''other'' \<and>
   (hasNoExtension p \<and> toLowerCase p \<notin> set allExtensions \<and>
      (\<forall>n \<in> set categoryNames. \<not> includesStr p n) \<longrightarrow> categorizeFile p = ''other'')"
proof (intro conjI impI)
  show "categorizeFile p \<in> set categoryNames \<union> {''other''}"
    unfolding categorizeFile_def categoryNames_def by (rule categorizeLoop_range)
  show "categorizeFile [] = ''other''" by code_simp
next
  assume h: "hasNoExtension p \<and> toLowerCase p \<notin> set allExtensions \<and>
      (\<forall>n \<in> set categoryNames. \<not> includesStr p n)"
  then have "extOf p \<notin> set allExtensions"
    using extOf_no_extension [of p] by auto
  then have "extOf p \<notin> set (concat (map snd categories))"
    by (simp add: allExtensions_def)
  moreover from h have "\<forall>n \<in> set (map fst categories). \<not> includesStr p n"
    by (simp add: categoryNames_def)
  ultimately show "categorizeFile p = ''other''"
    unfolding categorizeFile_def by (rule categorizeLoop_unmatched)
qed

theorem categorizeFile_total_witness:
  "hasNoExtension ''docs.d/Makefile'' \<and>
   toLowerCase ''docs.d/Makefile'' \<notin> set allExtensions \<and>
   find (includesStr ''docs.d/Makefile'') categoryNames = None \<and>
   categorizeFile ''docs.d/Makefile'' = ''other''"
proof -
  have h: "hasNoExtension ''docs.d/Makefile'' \<and>
      toLowerCase ''docs.d/Makefile'' \<notin> set allExtensions \<and>
      (\<forall>n \<in> set categoryNames. \<not> includesStr ''docs.d/Makefile'' n)"
    by code_simp
  have f: "find (includesStr ''docs.d/Makefile'') categoryNames = None" by code_simp
  from categorizeFile_total [of "''docs.d/Makefile''"] h f show ?thesis by blast
qed

section \<open>Sums and the insertion-ordered map\<close>

lemma mapGet_mapSet: "mapGet (mapSet k v m) k' = (if k' = k then Some v else mapGet m k')"
  by (induction m) auto

lemma keys_mapSet:
  "map fst (mapSet k v m) = (if k \<in> set (map fst m) then map fst m else map fst m @ [k])"
  by (induction m) (auto simp: rev_image_eqI)

lemma set_keys_mapSet: "fst ` set (mapSet k v m) = insert k (fst ` set m)"
  using keys_mapSet [of k v m] by (metis (no_types, lifting) insert_absorb list.set_map
      list.simps(15) rotate1.simps(2) set_rotate1)

lemma distinct_mapSet: "distinct (map fst m) \<Longrightarrow> distinct (map fst (mapSet k v m))"
  by (simp add: keys_mapSet)

lemma sum_mapSet:
  "distinct (map fst m) \<Longrightarrow>
   sum_list (map snd (mapSet k v m)) = sum_list (map snd m) - orZero (mapGet m k) + (v::int)"
proof (induction m)
  case Nil
  then show ?case by (simp add: orZero_def)
next
  case (Cons kv m)
  obtain k' v' where kv: "kv = (k', v')" by (cases kv)
  show ?case
  proof (cases "k' = k")
    case True
    then show ?thesis using kv by (simp add: orZero_def)
  next
    case False
    then show ?thesis using kv Cons by simp
  qed
qed

lemma categoryLoop_distinct:
  "distinct (map fst cats) \<Longrightarrow> distinct (map fst (categoryLoop objects cats))"
  by (induction objects arbitrary: cats) (auto simp: distinct_mapSet)

lemma categoryLoop_sum:
  "distinct (map fst cats) \<Longrightarrow>
   sum_list (map snd (categoryLoop objects cats))
     = sum_list (map snd cats) + sum_list (map obj_size objects)"
proof (induction objects arbitrary: cats)
  case Nil
  then show ?case by simp
next
  case (Cons ob objects)
  let ?c = "categorizeFile (path ob)"
  let ?cats = "mapSet ?c (orZero (mapGet cats ?c) + obj_size ob) cats"
  have "sum_list (map snd (categoryLoop (ob # objects) cats))
          = sum_list (map snd ?cats) + sum_list (map obj_size objects)"
    using Cons.IH [of ?cats] Cons.prems by (simp add: distinct_mapSet)
  also have "sum_list (map snd ?cats) = sum_list (map snd cats) + obj_size ob"
    using Cons.prems by (simp add: sum_mapSet)
  finally show ?case by simp
qed

lemma orZero_Some [simp]: "orZero (Some n) = n" and orZero_None [simp]: "orZero None = 0"
  by (simp_all add: orZero_def)

lemma categoryLoop_get:
  "orZero (mapGet (categoryLoop objects cats) c)
     = orZero (mapGet cats c)
       + sum_list (map obj_size (filter (\<lambda>ob. categorizeFile (path ob) = c) objects))"
  by (induction objects arbitrary: cats) (auto simp: mapGet_mapSet)

lemma categoryLoop_keys:
  "fst ` set (categoryLoop objects cats)
     = fst ` set cats \<union> (\<lambda>ob. categorizeFile (path ob)) ` set objects"
  by (induction objects arbitrary: cats) (simp_all add: set_keys_mapSet Un_commute insert_commute)

lemma foldl_sizes: "foldl (\<lambda>acc ob. acc + obj_size ob) a objects = a + sum_list (map obj_size objects)"
  by (induction objects arbitrary: a) auto

lemma sumSizes_sum_list: "sumSizes objects = sum_list (map obj_size objects)"
  by (simp add: sumSizes_def foldl_sizes)

section \<open>Slices\<close>

lemma slice_nat: "slice (int i) (int j) xs = take (j - i) (drop i xs)"
proof (cases "i \<le> length xs")
  case True
  then have "take (min j (length xs) - i) (drop i xs) = take (j - i) (drop i xs)"
    by (cases "j \<le> length xs") (simp_all add: min_def)
  with True show ?thesis by (simp add: slice_def relativeIndex_def min_def)
next
  case False
  then show ?thesis by (simp add: slice_def relativeIndex_def min_def)
qed

lemma slice_subset: "set (slice i j xs) \<subseteq> set xs"
  unfolding slice_def by (meson in_set_dropD in_set_takeD subsetI)

lemma length_slice_from_start: "0 \<le> j \<Longrightarrow> int (length (slice 0 j xs)) \<le> j"
  by (simp add: slice_def relativeIndex_def)

section \<open>The sort\<close>

lemma set_insertWith: "set (insertWith cmp x ys) = insert x (set ys)"
  by (induction ys) auto

lemma length_insertWith: "length (insertWith cmp x ys) = Suc (length ys)"
  by (induction ys) auto

lemma sorted_insertWith:
  "sorted_wrt (\<lambda>a b. obj_size a \<ge> obj_size b) ys \<Longrightarrow>
   sorted_wrt (\<lambda>a b. obj_size a \<ge> obj_size b) (insertWith bySizeDesc x ys)"
  by (induction ys) (auto simp: bySizeDesc_def set_insertWith)

lemma sorted_sortWith: "sorted_wrt (\<lambda>a b. obj_size a \<ge> obj_size b) (sortWith bySizeDesc xs)"
  by (induction xs) (auto simp: sortWith_def sorted_insertWith)

lemma filter_insertWith:
  "filter (\<lambda>ob. obj_size ob = k) (insertWith bySizeDesc x ys)
     = (if obj_size x = k then x # filter (\<lambda>ob. obj_size ob = k) ys
        else filter (\<lambda>ob. obj_size ob = k) ys)"
  by (induction ys) (auto simp: bySizeDesc_def)

lemma filter_sortWith:
  "filter (\<lambda>ob. obj_size ob = k) (sortWith bySizeDesc xs) = filter (\<lambda>ob. obj_size ob = k) xs"
  by (induction xs) (auto simp: sortWith_def filter_insertWith)

lemma set_sortWith: "set (sortWith cmp xs) = set xs"
  by (induction xs) (auto simp: sortWith_def set_insertWith)

lemma length_sortWith: "length (sortWith cmp xs) = length xs"
  by (induction xs) (auto simp: sortWith_def length_insertWith)

lemma count_insertWith:
  "length (filter P (insertWith cmp x ys)) = length (filter P (x # ys))"
  by (induction ys) auto

lemma count_sortWith: "length (filter P (sortWith cmp xs)) = length (filter P xs)"
  by (induction xs) (auto simp: sortWith_def count_insertWith)

section \<open>Decimal numbers, lines and white space\<close>

declare showNat.simps [simp del]
declare splitWs.simps [simp del]
declare chunks.simps [simp del]
declare sizeLoop.simps [simp del]

lemma digit_char_props:
  assumes "d < 10"
  shows "isDigit (char_of (48 + d))" and "\<not> isSpace (char_of (48 + d))"
    and "digitValue (char_of (48 + d)) = int d"
    and "char_of (48 + d) \<noteq> CHR ''-''" and "char_of (48 + d) \<noteq> CHR ''+''"
    and "char_of (48 + d) \<noteq> CHR '' ''" and "char_of (48 + d) \<noteq> CHR ''\<newline>''"
proof -
  have v: "of_char (char_of (48 + d)) = 48 + d" using assms by simp
  show "isDigit (char_of (48 + d))" using assms by (simp add: isDigit_def v)
  have ne: "\<And>c. of_char c \<noteq> 48 + d \<Longrightarrow> char_of (48 + d) \<noteq> c" using v by auto
  show "char_of (48 + d) \<noteq> CHR '' ''" by (rule ne) simp
  then show "\<not> isSpace (char_of (48 + d))" using assms by (simp add: isSpace_def v)
  show "digitValue (char_of (48 + d)) = int d" using assms by (simp add: digitValue_def)
  show "char_of (48 + d) \<noteq> CHR ''-''" by (rule ne) simp
  show "char_of (48 + d) \<noteq> CHR ''+''" by (rule ne) simp
  show "char_of (48 + d) \<noteq> CHR ''\<newline>''" by (rule ne) simp
qed

lemma showNat_digits: "\<forall>ch \<in> set (showNat n). isDigit ch \<and> \<not> isSpace ch \<and> ch \<noteq> CHR '' '' \<and> ch \<noteq> CHR ''\<newline>''"
proof (induction n rule: showNat.induct)
  case (1 n)
  show ?case
  proof (cases "n < 10")
    case True
    then show ?thesis by (subst showNat.simps) (simp add: digit_char_props)
  next
    case False
    have "n mod 10 < 10" by simp
    with False 1 show ?thesis
      by (subst showNat.simps) (simp add: digit_char_props)
  qed
qed

lemma showNat_nonempty: "showNat n \<noteq> []"
  by (subst showNat.simps) simp

lemma digitsValue_snoc: "digitsValue (ds @ [ch]) = digitsValue ds * 10 + digitValue ch"
  by (simp add: digitsValue_def)

lemma digitsValue_showNat: "digitsValue (showNat n) = int n"
proof (induction n rule: showNat.induct)
  case (1 n)
  show ?case
  proof (cases "n < 10")
    case True
    then show ?thesis
      by (subst showNat.simps) (simp add: digitsValue_def digit_char_props)
  next
    case False
    have "n mod 10 < 10" by simp
    then have "digitValue (char_of (48 + n mod 10)) = int (n mod 10)"
      by (rule digit_char_props)
    with False 1 have "digitsValue (showNat n) = int (n div 10) * 10 + int (n mod 10)"
      by (subst showNat.simps) (simp add: digitsValue_snoc)
    then show ?thesis by (simp add: zmod_int zdiv_int)
  qed
qed

lemma parseInt_showNat: "parseInt (showNat n) = Some (int n)"
proof -
  obtain ch s where cs: "showNat n = ch # s"
    using showNat_nonempty [of n] by (cases "showNat n") auto
  have all: "\<forall>c \<in> set (ch # s). isDigit c \<and> \<not> isSpace c" 
    using showNat_digits [of n] cs by auto
  have d: "isDigit ch" "\<not> isSpace ch" using all by auto
  have "ch \<noteq> CHR ''-''" "ch \<noteq> CHR ''+''"
    using d(1) by (auto simp: isDigit_def)
  moreover have "takeWhile isDigit (ch # s) = ch # s"
    using all by simp
  ultimately have "parseSigned (ch # s) = Some (digitsValue (ch # s))"
    by (simp add: parseDigits_def)
  moreover have "dropWhile isSpace (ch # s) = ch # s" using d by simp
  ultimately show ?thesis using cs digitsValue_showNat [of n] by (simp add: parseInt_def)
qed

lemma splitOn_append_sep:
  "sep \<notin> set a \<Longrightarrow> splitOn sep (a @ sep # b) = a # splitOn sep b"
  by (induction a) (auto split: list.splits)

lemma splitOn_join:
  "ls \<noteq> [] \<Longrightarrow> \<forall>l \<in> set ls. sep \<notin> set l \<Longrightarrow> splitOn sep (join [sep] ls) = ls"
proof (induction "[sep]" ls rule: join.induct)
  case 1
  then show ?case by simp
next
  case (2 part)
  then show ?case by (simp add: splitOn_no_sep)
next
  case (3 part nxt parts)
  then show ?case by (simp add: splitOn_append_sep)
qed

lemma concat_lines:
  "ls \<noteq> [] \<Longrightarrow> concat (map (\<lambda>l. l @ [sep]) ls) = join [sep] ls @ [sep]"
  by (induction "[sep]" ls rule: join.induct) auto

lemma hd_join: "ls \<noteq> [] \<Longrightarrow> hd ls \<noteq> [] \<Longrightarrow> hd (join sep ls) = hd (hd ls)"
  by (induction sep ls rule: join.induct) auto

lemma join_nonempty: "ls \<noteq> [] \<Longrightarrow> last ls \<noteq> [] \<Longrightarrow> join sep ls \<noteq> []"
  by (induction sep ls rule: join.induct) auto

lemma last_join: "ls \<noteq> [] \<Longrightarrow> last ls \<noteq> [] \<Longrightarrow> last (join sep ls) = last (last ls)"
  by (induction sep ls rule: join.induct) (auto simp: join_nonempty)

lemma trim_line:
  assumes "s \<noteq> []" and "\<not> isSpace (hd s)" and "\<not> isSpace (last s)"
  shows "trim (s @ ''\<newline>'') = s"
proof -
  obtain c s' where s: "s = c # s'" using assms(1) by (cases s) auto
  have front: "dropWhile isSpace (s @ ''\<newline>'') = s @ ''\<newline>''"
    using assms(2) s by simp
  have "rev s \<noteq> []" using assms(1) by simp
  then obtain d t where r: "rev s = d # t" by (cases "rev s") auto
  have "d = last s" using r assms(1) by (metis hd_rev list.sel(1))
  then have "\<not> isSpace d" using assms(3) by simp
  then have bk: "dropWhile isSpace (rev s) = rev s" unfolding r by simp
  have nl: "isSpace CHR ''\<newline>''" by (simp add: isSpace_def)
  show ?thesis unfolding trim_def front using bk nl by simp
qed

section \<open>The listing\<close>

lemma splitWs_nonempty: "splitWs s \<noteq> []"
  by (subst splitWs.simps) simp

lemma splitWs_head_no_space: "splitWs s = h # ps \<Longrightarrow> ch \<in> set h \<Longrightarrow> \<not> isSpace ch"
proof -
  assume a: "splitWs s = h # ps" and c: "ch \<in> set h"
  show "\<not> isSpace ch"
  proof (cases "dropWhile (\<lambda>ch. \<not> isSpace ch) s = []")
    case True
    then have "splitWs s = [s]" by (subst splitWs.simps) simp
    with a have hs: "h = s" by simp
    from True have "\<forall>x \<in> set s. \<not> isSpace x" by (simp only: dropWhile_eq_Nil_conv)
    with c hs show ?thesis by blast
  next
    case False
    then have "splitWs s = takeWhile (\<lambda>ch. \<not> isSpace ch) s
        # splitWs (dropWhile isSpace (dropWhile (\<lambda>ch. \<not> isSpace ch) s))"
      by (subst splitWs.simps) (simp only: if_False)
    with a have "h = takeWhile (\<lambda>ch. \<not> isSpace ch) s" by simp
    with c have "ch \<in> set (takeWhile (\<lambda>ch. \<not> isSpace ch) s)" by simp
    then show ?thesis by (rule set_takeWhileD [THEN conjunct2])
  qed
qed

lemma lineHash_no_space: "ch \<in> set (lineHash line) \<Longrightarrow> \<not> isSpace ch"
proof (cases "splitWs line")
  case Nil
  assume "ch \<in> set (lineHash line)"
  with Nil show ?thesis by (simp add: lineHash_def)
next
  case (Cons h ps)
  assume "ch \<in> set (lineHash line)"
  with Cons have "ch \<in> set h" by (simp add: lineHash_def)
  with Cons show ?thesis by (rule splitWs_head_no_space)
qed

lemma recordPaths_step:
  "recordPaths (line # lines) m = recordPaths lines (mapSet (lineHash line) (linePath line) m)"
proof (cases "splitWs line")
  case Nil
  then show ?thesis using splitWs_nonempty by simp
next
  case (Cons h ps)
  then show ?thesis by (cases ps) (simp_all add: lineHash_def linePath_def)
qed

lemma recordPaths_keys:
  "fst ` set (recordPaths lines m) = fst ` set m \<union> lineHash ` set lines"
proof (induction lines arbitrary: m)
  case Nil
  then show ?case by simp
next
  case (Cons line lines)
  show ?case unfolding recordPaths_step Cons.IH by (auto simp: set_keys_mapSet)
qed

lemma recordPaths_distinct:
  "distinct (map fst m) \<Longrightarrow> distinct (map fst (recordPaths lines m))"
proof (induction lines arbitrary: m)
  case Nil
  then show ?case by simp
next
  case (Cons line lines)
  show ?case unfolding recordPaths_step by (rule Cons.IH) (rule distinct_mapSet, rule Cons.prems)
qed

lemma recordPaths_get:
  "mapGet (recordPaths lines m) h =
     (if pathsListed lines h = [] then mapGet m h else Some (last (pathsListed lines h)))"
proof (induction lines arbitrary: m)
  case Nil
  then show ?case by (simp add: pathsListed_def)
next
  case (Cons line lines)
  show ?case unfolding recordPaths_step Cons.IH
    by (auto simp: pathsListed_def mapGet_mapSet)
qed

lemma pushSizes_acc:
  "pushSizes htp lines (a @ b) = a @ pushSizes htp lines b"
  by (induction lines arbitrary: a b) (auto split: list.splits option.splits)

lemma pushSizes_append:
  "pushSizes htp lines acc = acc @ pushSizes htp lines []"
  using pushSizes_acc [of htp lines acc "[]"] by simp

section \<open>The size answers and the batch loop\<close>

lemma space_chars: "isSpace CHR '' ''" "isSpace CHR ''\<newline>''"
  by (simp_all add: isSpace_def)

lemma splitOn_sizeLine:
  assumes "CHR '' '' \<notin> set h"
  shows "splitOn CHR '' '' (sizeLine sz h) = [showNat (sz h), h]"
proof -
  have "CHR '' '' \<notin> set (showNat (sz h))" using showNat_digits [of "sz h"] by blast
  then have "splitOn CHR '' '' (showNat (sz h) @ CHR '' '' # h) = showNat (sz h) # splitOn CHR '' '' h"
    by (rule splitOn_append_sep)
  with assms show ?thesis by (simp add: sizeLine_def splitOn_no_sep)
qed

lemma pushSizes_sizeLines:
  assumes "\<forall>h \<in> set batch. h \<noteq> [] \<and> CHR '' '' \<notin> set h"
  shows "pushSizes htp (map (sizeLine sz) batch) [] = map (sized htp sz) batch"
  using assms
proof (induction batch)
  case Nil
  then show ?case by simp
next
  case (Cons h batch)
  then have h: "h \<noteq> []" "CHR '' '' \<notin> set h" by auto
  have "pushSizes htp (map (sizeLine sz) (h # batch)) []
          = pushSizes htp (map (sizeLine sz) batch) [sized htp sz h]"
    using h by (simp add: splitOn_sizeLine parseInt_showNat sized_def)
  also have "\<dots> = [sized htp sz h] @ pushSizes htp (map (sizeLine sz) batch) []"
    by (rule pushSizes_append)
  finally show ?case using Cons by simp
qed

lemma sizeLine_props:
  assumes "h \<noteq> []" and "\<forall>ch \<in> set h. \<not> isSpace ch"
  shows "sizeLine sz h \<noteq> []" and "\<not> isSpace (hd (sizeLine sz h))"
    and "\<not> isSpace (last (sizeLine sz h))" and "CHR ''\<newline>'' \<notin> set (sizeLine sz h)"
proof -
  show "sizeLine sz h \<noteq> []" by (simp add: sizeLine_def)
  have "hd (sizeLine sz h) = hd (showNat (sz h))"
    using showNat_nonempty [of "sz h"] by (simp add: sizeLine_def)
  moreover have "hd (showNat (sz h)) \<in> set (showNat (sz h))"
    using showNat_nonempty [of "sz h"] by simp
  ultimately show "\<not> isSpace (hd (sizeLine sz h))" using showNat_digits [of "sz h"] by metis
  have "last (sizeLine sz h) = last h" using assms(1) by (simp add: sizeLine_def)
  moreover have "last h \<in> set h" using assms(1) by simp
  ultimately show "\<not> isSpace (last (sizeLine sz h))" using assms(2) by metis
  have "CHR ''\<newline>'' \<notin> set h" using assms(2) space_chars by blast
  moreover have "CHR ''\<newline>'' \<notin> set (showNat (sz h))" using showNat_digits [of "sz h"] by blast
  ultimately show "CHR ''\<newline>'' \<notin> set (sizeLine sz h)" by (simp add: sizeLine_def)
qed

lemma lines_of_batchCheck:
  assumes "batch \<noteq> []" and "\<forall>h \<in> set batch. h \<noteq> [] \<and> (\<forall>ch \<in> set h. \<not> isSpace ch)"
  shows "splitOn CHR ''\<newline>'' (trim (batchCheck sz batch)) = map (sizeLine sz) batch"
proof -
  let ?ls = "map (sizeLine sz) batch"
  have ne: "?ls \<noteq> []" using assms(1) by simp
  have "hd ?ls = sizeLine sz (hd batch)" "last ?ls = sizeLine sz (last batch)"
    using assms(1) by (simp_all add: hd_map last_map)
  moreover have "hd batch \<in> set batch" "last batch \<in> set batch" using assms(1) by simp_all
  ultimately have ends: "hd ?ls \<noteq> []" "\<not> isSpace (hd (hd ?ls))"
      "last ?ls \<noteq> []" "\<not> isSpace (last (last ?ls))"
    using assms(2) sizeLine_props by metis+
  have "batchCheck sz batch = concat (map (\<lambda>l. l @ ''\<newline>'') ?ls)"
    by (simp add: batchCheck_def comp_def)
  also have "\<dots> = join ''\<newline>'' ?ls @ ''\<newline>''" using ne by (rule concat_lines)
  finally have "trim (batchCheck sz batch) = join ''\<newline>'' ?ls"
    using ne ends by (simp add: trim_line join_nonempty hd_join last_join)
  moreover have "\<forall>l \<in> set ?ls. CHR ''\<newline>'' \<notin> set l"
    using assms(2) sizeLine_props(4) by auto
  ultimately show ?thesis using ne by (simp add: splitOn_join)
qed

lemma batchObjects_failed: "cf (join ''\<newline>'' batch) = None \<Longrightarrow> batchObjects cf htp batch = []"
  by (simp add: batchObjects_def)

lemma batchObjects_resolved:
  assumes "cf (join ''\<newline>'' batch) = Some (batchCheck sz batch)"
    and "batch \<noteq> []" and "\<forall>h \<in> set batch. h \<noteq> [] \<and> (\<forall>ch \<in> set h. \<not> isSpace ch)"
  shows "batchObjects cf htp batch = map (sized htp sz) batch"
proof -
  have "\<forall>h \<in> set batch. h \<noteq> [] \<and> CHR '' '' \<notin> set h"
    using assms(3) space_chars by blast
  then show ?thesis
    using assms by (simp add: batchObjects_def lines_of_batchCheck pushSizes_sizeLines)
qed

lemma chunks_unfold:
  "0 < n \<Longrightarrow> xs \<noteq> [] \<Longrightarrow> chunks n xs = take n xs # chunks n (drop n xs)"
  by (subst chunks.simps) simp

lemma chunks_Nil: "chunks n [] = []"
  by (subst chunks.simps) simp

lemma concat_chunks: "0 < n \<Longrightarrow> concat (chunks n xs) = xs"
proof (induction n xs rule: chunks.induct)
  case (1 n xs)
  show ?case
  proof (cases "xs = []")
    case True
    then show ?thesis by (simp add: chunks_Nil)
  next
    case False
    with 1 show ?thesis by (simp add: chunks_unfold)
  qed
qed

lemma chunks_nonempty: "b \<in> set (chunks n xs) \<Longrightarrow> b \<noteq> []"
proof (induction n xs rule: chunks.induct)
  case (1 n xs)
  show ?case
  proof (cases "n = 0 \<or> xs = []")
    case True
    with 1(2) show ?thesis by (subst (asm) chunks.simps) simp
  next
    case False
    then have "chunks n xs = take n xs # chunks n (drop n xs)" by (simp add: chunks_unfold)
    with 1 False show ?thesis by auto
  qed
qed

lemma chunks_subset: "b \<in> set (chunks n xs) \<Longrightarrow> set b \<subseteq> set xs"
proof (induction n xs rule: chunks.induct)
  case (1 n xs)
  show ?case
  proof (cases "n = 0 \<or> xs = []")
    case True
    with 1(2) show ?thesis by (subst (asm) chunks.simps) simp
  next
    case False
    then have "chunks n xs = take n xs # chunks n (drop n xs)" by (simp add: chunks_unfold)
    with 1 False show ?thesis by (auto dest: in_set_takeD in_set_dropD)
  qed
qed

lemma sizeLoop_chunks:
  "0 < batchSize \<Longrightarrow>
   sizeLoop cf htp hashes batchSize i objects
     = Some (objects @ concat (map (batchObjects cf htp) (chunks batchSize (drop i hashes))))"
proof (induction cf htp hashes batchSize i objects rule: sizeLoop.induct)
  case (1 cf htp hashes batchSize i objects)
  show ?case
  proof (cases "i < length hashes")
    case False
    then show ?thesis by (subst sizeLoop.simps) (simp add: chunks_Nil)
  next
    case True
    let ?batch = "take batchSize (drop i hashes)"
    have ne: "drop i hashes \<noteq> []" using True by simp
    have ch: "chunks batchSize (drop i hashes)
               = ?batch # chunks batchSize (drop (i + batchSize) hashes)"
      using 1(3) ne by (simp add: chunks_unfold add.commute)
    have sl: "slice (int i) (int i + int batchSize) hashes = ?batch"
      using slice_nat [of i "i + batchSize" hashes] by simp
    show ?thesis
    proof (cases "cf (join ''\<newline>'' ?batch)")
      case None
      have "sizeLoop cf htp hashes batchSize i objects
              = sizeLoop cf htp hashes batchSize (i + batchSize) objects"
        using True 1(3) None by (subst sizeLoop.simps) (simp add: sl)
      also have "\<dots> = Some (objects @ concat (map (batchObjects cf htp)
                            (chunks batchSize (drop (i + batchSize) hashes))))"
        using 1(1) True 1(3) None sl by simp
      finally show ?thesis using None by (simp add: ch batchObjects_failed)
    next
      case (Some sizeOutput)
      let ?pushed = "pushSizes htp (splitOn CHR ''\<newline>'' (trim sizeOutput)) objects"
      have "sizeLoop cf htp hashes batchSize i objects
              = sizeLoop cf htp hashes batchSize (i + batchSize) ?pushed"
        using True 1(3) Some by (subst sizeLoop.simps) (simp add: sl)
      also have "\<dots> = Some (?pushed @ concat (map (batchObjects cf htp)
                            (chunks batchSize (drop (i + batchSize) hashes))))"
        using 1(2) True 1(3) Some sl by simp
      also have "?pushed = objects @ batchObjects cf htp ?batch"
        using Some pushSizes_append [of htp _ objects] by (simp add: batchObjects_def)
      finally show ?thesis by (simp add: ch)
    qed
  qed
qed

lemma pushedObjects_chunks:
  "0 < batchSize \<Longrightarrow>
   pushedObjects batchSize R output
     = Some (concat (map (batchObjects (catFile R) (hashToPathOf output))
                      (chunks batchSize (mapKeys (hashToPathOf output)))))"
  by (simp add: pushedObjects_def sizeLoop_chunks)

lemma keys_listing: "set (mapKeys (hashToPathOf output)) = lineHash ` set (listingLines output)"
  using recordPaths_keys [of "listingLines output" "[]"]
  by (simp add: mapKeys_def hashToPathOf_def listingLines_def)

lemma keys_no_space: "h \<in> set (mapKeys (hashToPathOf output)) \<Longrightarrow> ch \<in> set h \<Longrightarrow> \<not> isSpace ch"
  unfolding keys_listing using lineHash_no_space by blast

lemma keys_distinct: "distinct (mapKeys (hashToPathOf output))"
  by (simp add: mapKeys_def hashToPathOf_def recordPaths_distinct)

lemma pathOrUnknown_listed:
  "pathOrUnknown (hashToPathOf output) h =
     (if pathsListed (listingLines output) h = [] \<or> last (pathsListed (listingLines output) h) = []
      then ''(unknown)'' else last (pathsListed (listingLines output) h))"
  by (simp add: pathOrUnknown_def hashToPathOf_def listingLines_def recordPaths_get)

lemma pathOrUnknown_nonempty: "pathOrUnknown htp h \<noteq> []"
  by (simp add: pathOrUnknown_def split: option.splits)

lemma pushSizes_Cons_cases:
  "pushSizes htp (line # lines) acc = pushSizes htp lines acc \<or>
   (\<exists>h n. pushSizes htp (line # lines) acc
            = pushSizes htp lines (acc @ [\<lparr>hash = h, path = pathOrUnknown htp h, obj_size = n\<rparr>]))"
proof (cases "splitOn CHR '' '' line")
  case Nil
  then show ?thesis by simp
next
  case (Cons sizeText rest)
  show ?thesis
  proof (cases rest)
    case Nil
    with Cons show ?thesis by simp
  next
    case (Cons h rest')
    show ?thesis
    proof (cases "parseInt sizeText")
      case None
      with \<open>splitOn CHR '' '' line = sizeText # rest\<close> Cons show ?thesis by simp
    next
      case (Some n)
      show ?thesis
      proof (cases "h = []")
        case True
        with \<open>splitOn CHR '' '' line = sizeText # rest\<close> Cons Some show ?thesis by simp
      next
        case False
        with \<open>splitOn CHR '' '' line = sizeText # rest\<close> Cons Some
        have "pushSizes htp (line # lines) acc
            = pushSizes htp lines (acc @ [\<lparr>hash = h, path = pathOrUnknown htp h, obj_size = n\<rparr>])"
          by simp
        then show ?thesis by blast
      qed
    qed
  qed
qed

lemma pushSizes_paths:
  "ob \<in> set (pushSizes htp lines acc) \<Longrightarrow>
   ob \<in> set acc \<or> path ob = pathOrUnknown htp (hash ob)"
proof (induction lines arbitrary: acc)
  case Nil
  then show ?case by simp
next
  case (Cons line lines)
  from pushSizes_Cons_cases [of htp line lines acc] show ?case
  proof
    assume "pushSizes htp (line # lines) acc = pushSizes htp lines acc"
    with Cons.prems have "ob \<in> set (pushSizes htp lines acc)" by simp
    then show ?thesis by (rule Cons.IH)
  next
    assume "\<exists>h n. pushSizes htp (line # lines) acc
            = pushSizes htp lines (acc @ [\<lparr>hash = h, path = pathOrUnknown htp h, obj_size = n\<rparr>])"
    then obtain h n where "pushSizes htp (line # lines) acc
            = pushSizes htp lines (acc @ [\<lparr>hash = h, path = pathOrUnknown htp h, obj_size = n\<rparr>])"
      by blast
    with Cons.prems
    have "ob \<in> set (pushSizes htp lines
                    (acc @ [\<lparr>hash = h, path = pathOrUnknown htp h, obj_size = n\<rparr>]))"
      by simp
    then have "ob \<in> set (acc @ [\<lparr>hash = h, path = pathOrUnknown htp h, obj_size = n\<rparr>])
               \<or> path ob = pathOrUnknown htp (hash ob)"
      by (rule Cons.IH)
    then show ?thesis by auto
  qed
qed

lemma batchObjects_paths:
  assumes "ob \<in> set (batchObjects cf htp batch)"
  shows "path ob = pathOrUnknown htp (hash ob)"
proof (cases "cf (join ''\<newline>'' batch)")
  case None
  with assms show ?thesis by (simp add: batchObjects_def)
next
  case (Some sizeOutput)
  with assms have "ob \<in> set (pushSizes htp (splitOn CHR ''\<newline>'' (trim sizeOutput)) [])"
    by (simp add: batchObjects_def)
  then have "ob \<in> set [] \<or> path ob = pathOrUnknown htp (hash ob)" by (rule pushSizes_paths)
  then show ?thesis by simp
qed

lemma objects_of_chunks:
  assumes "\<forall>b \<in> set cs. b \<noteq> [] \<and> (\<forall>h \<in> set b. h \<noteq> [] \<and> (\<forall>ch \<in> set h. \<not> isSpace ch))
             \<and> (cf (join ''\<newline>'' b) = None \<or> cf (join ''\<newline>'' b) = Some (batchCheck sz b))"
  shows "concat (map (batchObjects cf htp) cs)
           = map (sized htp sz) (concat (filter (\<lambda>b. cf (join ''\<newline>'' b) \<noteq> None) cs))"
  using assms
proof (induction cs)
  case Nil
  then show ?case by simp
next
  case (Cons b cs)
  then have ih: "concat (map (batchObjects cf htp) cs)
           = map (sized htp sz) (concat (filter (\<lambda>b. cf (join ''\<newline>'' b) \<noteq> None) cs))"
    by simp
  from Cons.prems have b: "b \<noteq> []" "\<forall>h \<in> set b. h \<noteq> [] \<and> (\<forall>ch \<in> set h. \<not> isSpace ch)"
    and ans: "cf (join ''\<newline>'' b) = None \<or> cf (join ''\<newline>'' b) = Some (batchCheck sz b)"
    by simp_all
  from ans show ?case
  proof
    assume "cf (join ''\<newline>'' b) = None"
    then show ?thesis using ih by (simp add: batchObjects_failed)
  next
    assume r: "cf (join ''\<newline>'' b) = Some (batchCheck sz b)"
    then have "batchObjects cf htp b = map (sized htp sz) b"
      using b by (rule batchObjects_resolved)
    then show ?thesis using ih r by simp
  qed
qed

lemma chunks_wellformed:
  assumes "[] \<notin> set (mapKeys (hashToPathOf output))"
    and "b \<in> set (chunks n (mapKeys (hashToPathOf output)))"
  shows "b \<noteq> [] \<and> (\<forall>h \<in> set b. h \<noteq> [] \<and> (\<forall>ch \<in> set h. \<not> isSpace ch))"
proof -
  have "set b \<subseteq> set (mapKeys (hashToPathOf output))" using assms(2) by (rule chunks_subset)
  then show ?thesis using assms chunks_nonempty keys_no_space by blast
qed

lemma pushed_of_answers:
  assumes "0 < n" and "[] \<notin> set (mapKeys (hashToPathOf output))"
    and "\<forall>b \<in> set (chunks n (mapKeys (hashToPathOf output))). batchFails R b \<or> batchResolved R sz b"
  shows "pushedObjects n R output
           = Some (map (sized (hashToPathOf output) sz)
                    (concat (filter (\<lambda>b. \<not> batchFails R b) (chunks n (mapKeys (hashToPathOf output))))))"
proof -
  have wf: "\<forall>b \<in> set (chunks n (mapKeys (hashToPathOf output))).
          b \<noteq> [] \<and> (\<forall>h \<in> set b. h \<noteq> [] \<and> (\<forall>ch \<in> set h. \<not> isSpace ch))
          \<and> (catFile R (join ''\<newline>'' b) = None
               \<or> catFile R (join ''\<newline>'' b) = Some (batchCheck sz b))"
  proof
    fix b assume b: "b \<in> set (chunks n (mapKeys (hashToPathOf output)))"
    with assms(3) have "batchFails R b \<or> batchResolved R sz b" by blast
    then have "catFile R (join ''\<newline>'' b) = None
               \<or> catFile R (join ''\<newline>'' b) = Some (batchCheck sz b)"
      unfolding batchFails_def batchResolved_def .
    with chunks_wellformed [OF assms(2) b]
    show "b \<noteq> [] \<and> (\<forall>h \<in> set b. h \<noteq> [] \<and> (\<forall>ch \<in> set h. \<not> isSpace ch))
          \<and> (catFile R (join ''\<newline>'' b) = None
               \<or> catFile R (join ''\<newline>'' b) = Some (batchCheck sz b))"
      by blast
  qed
  have "pushedObjects n R output
          = Some (concat (map (batchObjects (catFile R) (hashToPathOf output))
                      (chunks n (mapKeys (hashToPathOf output)))))"
    using assms(1) by (rule pushedObjects_chunks)
  also have "concat (map (batchObjects (catFile R) (hashToPathOf output))
                       (chunks n (mapKeys (hashToPathOf output))))
           = map (sized (hashToPathOf output) sz)
               (concat (filter (\<lambda>b. catFile R (join ''\<newline>'' b) \<noteq> None)
                          (chunks n (mapKeys (hashToPathOf output)))))"
    using wf by (rule objects_of_chunks)
  finally show ?thesis unfolding batchFails_def .
qed

lemma pushed_all_resolved:
  assumes "0 < n" and "[] \<notin> set (mapKeys (hashToPathOf output))"
    and "\<forall>b \<in> set (chunks n (mapKeys (hashToPathOf output))). batchResolved R sz b"
  shows "pushedObjects n R output
           = Some (map (sized (hashToPathOf output) sz) (mapKeys (hashToPathOf output)))"
proof -
  have nf: "\<forall>b \<in> set (chunks n (mapKeys (hashToPathOf output))). \<not> batchFails R b"
    using assms(3) by (simp add: batchFails_def batchResolved_def)
  then have f: "filter (\<lambda>b. \<not> batchFails R b) (chunks n (mapKeys (hashToPathOf output)))
               = chunks n (mapKeys (hashToPathOf output))"
    by (simp only: filter_True)
  have "\<forall>b \<in> set (chunks n (mapKeys (hashToPathOf output))).
                   batchFails R b \<or> batchResolved R sz b"
    using assms(3) by blast
  with assms(1,2) have "pushedObjects n R output
           = Some (map (sized (hashToPathOf output) sz)
                    (concat (filter (\<lambda>b. \<not> batchFails R b) (chunks n (mapKeys (hashToPathOf output))))))"
    by (rule pushed_of_answers)
  then show ?thesis unfolding f concat_chunks [OF assms(1)] .
qed

lemma getAllObjectsWith_pushed:
  "revList R d = Some output \<Longrightarrow> pushedObjects n R output = Some pushed \<Longrightarrow>
   getAllObjectsWith n R d = Some (Inr (sortWith bySizeDesc pushed))"
  by (simp add: getAllObjectsWith_def)

lemma getAllObjectsWith_inv:
  "getAllObjectsWith n R d = Some (Inr inventory) \<Longrightarrow>
   \<exists>output pushed. revList R d = Some output \<and> pushedObjects n R output = Some pushed
      \<and> inventory = sortWith bySizeDesc pushed"
  by (auto simp: getAllObjectsWith_def split: option.splits)

section \<open>The claims on the analysis\<close>

lemma gitDir3x_iff:
  "GitDir3xLarger \<in> set (generateRecommendations objects g w) \<longleftrightarrow> g > w * 3"
  by (auto simp: generateRecommendations_def Let_def)

text \<open>
  Claim C2, as the specification states it: the store-bloat recommendation fires exactly
  when the history store is more than three times the working tree, and when the
  working-tree measurement is unavailable (reported as 0) the rule does not fire and
  nothing is divided by zero, the reported ratio included. In \<open>unmeasuredRepo\<close> the
  working-tree measurement fails and is reported as 0: the recommendation is given, and
  the reported ratio is the quotient \<open>6144 / 0\<close>.
\<close>

theorem store_bloat_unmeasured_counterexample:
  "findBytes unmeasuredRepo = None \<and>
   bloatCommand unmeasuredRepo sampleOptions =
     Some (Inr \<lparr>stats = \<lparr>gitDirSize = 6144, workingDirSize = 0, totalObjectSize = 410,
                          objectCount = 3, largeObjectCount = 0, ratio = PlusInfinity\<rparr>,
                largestFiles = [],
                recommendations = [GitDir3xLarger, RunGitGc],
                sizeByCategory = None\<rparr>)"
  by code_simp

text \<open>
  Claim C2, amended: the store-bloat recommendation fires exactly when the size of the
  history store exceeds three times the size of the working tree. A working-tree
  measurement that is unavailable is reported as 0 and treated as the number 0: the rule
  then fires exactly when the history store is larger than 0, and the reported ratio is
  the quotient by zero, which the language evaluates to an infinity or to \<^verbatim>\<open>NaN\<close>
  without raising an error.
\<close>

theorem store_bloat_rule:
  "(GitDir3xLarger \<in> set (generateRecommendations objects g w) \<longleftrightarrow> g > 3 * w) \<and>
   (findBytes R = None \<longrightarrow>
      getWorkingDirSize R = 0 \<and>
      (GitDir3xLarger \<in> set (generateRecommendations objects (getGitDirSize R) (getWorkingDirSize R))
         \<longleftrightarrow> getGitDirSize R > 0) \<and>
      ratio (stats (analyze objects (getGitDirSize R) (getWorkingDirSize R) opts))
        = (if getGitDirSize R > 0 then PlusInfinity
           else if getGitDirSize R < 0 then MinusInfinity else NaN))"
  by (auto simp: gitDir3x_iff getWorkingDirSize_def analyze_def Let_def divide_def)

theorem store_bloat_rule_witness:
  "findBytes unmeasuredRepo = None \<and> getGitDirSize unmeasuredRepo = 6144 \<and>
   getWorkingDirSize unmeasuredRepo = 0 \<and>
   GitDir3xLarger \<in> set (generateRecommendations sampleObjects 6144 0) \<and>
   ratio (stats (analyze sampleObjects 6144 0 sampleOptions)) = PlusInfinity"
proof -
  have h: "findBytes unmeasuredRepo = None" by code_simp
  have g: "getGitDirSize unmeasuredRepo = 6144" by code_simp
  have w: "getWorkingDirSize unmeasuredRepo = 0" by code_simp
  from store_bloat_rule [of sampleObjects 6144 0 unmeasuredRepo sampleOptions] h
  show ?thesis unfolding g w by simp
qed

text \<open>
  Claim C8: for every threshold \<open>minSize\<close>, every entry of the files that the command
  returns has a size of at least \<open>minSize\<close>, and there are at most \<open>limit\<close> of them, for
  a limit that is a count (not negative); when every object is below the threshold, no
  file is returned and the count of large objects is 0, while the total object size is
  still the sum of the sizes of the whole inventory.
\<close>

theorem threshold_filter:
  "(\<forall>e \<in> set (largestFiles (analyze objects g w opts)). obj_size e \<ge> minSize opts) \<and>
   (0 \<le> limit opts \<longrightarrow> int (length (largestFiles (analyze objects g w opts))) \<le> limit opts) \<and>
   ((\<forall>ob \<in> set objects. obj_size ob < minSize opts) \<longrightarrow>
      largestFiles (analyze objects g w opts) = [] \<and>
      largeObjectCount (stats (analyze objects g w opts)) = 0) \<and>
   totalObjectSize (stats (analyze objects g w opts)) = sum_list (map obj_size objects)"
proof (intro conjI impI ballI)
  fix e assume "e \<in> set (largestFiles (analyze objects g w opts))"
  then obtain ob
    where ob: "ob \<in> set (slice 0 (limit opts) (filter (\<lambda>ob. obj_size ob \<ge> minSize opts) objects))"
      and e: "e = withCategory ob"
    by (auto simp: analyze_def Let_def)
  from ob have "ob \<in> set (filter (\<lambda>ob. obj_size ob \<ge> minSize opts) objects)"
    by (rule subsetD [OF slice_subset])
  with e show "obj_size e \<ge> minSize opts" by (simp add: withCategory_def)
next
  assume "0 \<le> limit opts"
  then show "int (length (largestFiles (analyze objects g w opts))) \<le> limit opts"
    by (simp add: analyze_def Let_def length_slice_from_start)
next
  assume below: "\<forall>ob \<in> set objects. obj_size ob < minSize opts"
  then have "filter (\<lambda>ob. obj_size ob \<ge> minSize opts) objects = []"
    by (auto simp: filter_empty_conv)
  then show "largestFiles (analyze objects g w opts) = []"
    and "largeObjectCount (stats (analyze objects g w opts)) = 0"
    by (simp_all add: analyze_def Let_def slice_def)
next
  show "totalObjectSize (stats (analyze objects g w opts)) = sum_list (map obj_size objects)"
    by (simp add: analyze_def Let_def sumSizes_sum_list)
qed

theorem threshold_filter_witness:
  "0 \<le> limit sampleOptions \<and>
   map obj_size (largestFiles (analyze sampleObjects 6000000 1000000 sampleOptions)) = [2000000] \<and>
   list_all (\<lambda>e. obj_size e \<ge> minSize sampleOptions)
     (largestFiles (analyze sampleObjects 6000000 1000000 sampleOptions)) \<and>
   int (length (largestFiles (analyze sampleObjects 6000000 1000000 sampleOptions)))
     \<le> limit sampleOptions \<and>
   filter (\<lambda>ob. \<not> obj_size ob < 5000000) sampleObjects = [] \<and>
   largestFiles (analyze sampleObjects 6000000 1000000 (sampleOptions\<lparr>minSize := 5000000\<rparr>)) = [] \<and>
   largeObjectCount (stats (analyze sampleObjects 6000000 1000000 (sampleOptions\<lparr>minSize := 5000000\<rparr>))) = 0 \<and>
   totalObjectSize (stats (analyze sampleObjects 6000000 1000000 (sampleOptions\<lparr>minSize := 5000000\<rparr>)))
     = 2001000"
proof -
  have l: "0 \<le> limit sampleOptions" by code_simp
  have a: "map obj_size (largestFiles (analyze sampleObjects 6000000 1000000 sampleOptions)) = [2000000]"
    by code_simp
  from threshold_filter [of sampleObjects 6000000 1000000 sampleOptions] l
  have above: "\<forall>e \<in> set (largestFiles (analyze sampleObjects 6000000 1000000 sampleOptions)).
                 obj_size e \<ge> minSize sampleOptions"
    and bound: "int (length (largestFiles (analyze sampleObjects 6000000 1000000 sampleOptions)))
                  \<le> limit sampleOptions"
    by blast+
  from above have all: "list_all (\<lambda>e. obj_size e \<ge> minSize sampleOptions)
     (largestFiles (analyze sampleObjects 6000000 1000000 sampleOptions))"
    by (simp only: list_all_iff)
  have b: "\<forall>ob \<in> set sampleObjects. obj_size ob < minSize (sampleOptions\<lparr>minSize := 5000000\<rparr>)"
    by code_simp
  have f: "filter (\<lambda>ob. \<not> obj_size ob < 5000000) sampleObjects = []" by code_simp
  have s: "sum_list (map obj_size sampleObjects) = 2001000" by code_simp
  from threshold_filter [of sampleObjects 6000000 1000000 "sampleOptions\<lparr>minSize := 5000000\<rparr>"] b s
  have "largestFiles (analyze sampleObjects 6000000 1000000 (sampleOptions\<lparr>minSize := 5000000\<rparr>)) = [] \<and>
   largeObjectCount (stats (analyze sampleObjects 6000000 1000000 (sampleOptions\<lparr>minSize := 5000000\<rparr>))) = 0 \<and>
   totalObjectSize (stats (analyze sampleObjects 6000000 1000000 (sampleOptions\<lparr>minSize := 5000000\<rparr>)))
     = 2001000"
    by simp
  with l a all bound f show ?thesis by blast
qed

text \<open>
  Claim C9: for every inventory, the byte totals of the category breakdown add up to the
  total object size, every object being counted in exactly one category: the categories
  of the breakdown are distinct, they are the categories of the objects, and the total of
  a category is the sum of the sizes of the objects classified in it.
\<close>

theorem category_conservation:
  "sum_list (map snd (categoryTotals objects)) = totalObjectSize (stats (analyze objects g w opts)) \<and>
   distinct (map fst (categoryTotals objects)) \<and>
   set (map fst (categoryTotals objects)) = (\<lambda>ob. categorizeFile (path ob)) ` set objects \<and>
   (\<forall>c. orZero (mapGet (categoryTotals objects) c)
          = sum_list (map obj_size (filter (\<lambda>ob. categorizeFile (path ob) = c) objects)))"
  by (simp add: categoryTotals_def categoryLoop_sum categoryLoop_distinct categoryLoop_get
        categoryLoop_keys analyze_def Let_def sumSizes_sum_list)

section \<open>The claims on the inventory\<close>

lemma hash_sized: "hash (sized htp sz h) = h"
  by (simp add: sized_def)

lemma count_distinct: "distinct xs \<Longrightarrow> x \<in> set xs \<Longrightarrow> length (filter (\<lambda>y. y = x) xs) = 1"
  by (induction xs) (auto simp: filter_empty_conv)

lemma count_map_sized:
  "length (filter (\<lambda>ob. hash ob = h) (map (sized htp sz) xs)) = length (filter (\<lambda>y. y = h) xs)"
  by (induction xs) (auto simp: hash_sized)

lemma length_concat_filter_le: "length (concat (filter P xs)) \<le> length (concat xs)"
  by (induction xs) auto

lemma length_concat_filter:
  "x \<in> set xs \<Longrightarrow> \<not> P x \<Longrightarrow> length (concat (filter P xs)) + length x \<le> length (concat xs)"
proof (induction xs)
  case Nil
  then show ?case by simp
next
  case (Cons y ys)
  show ?case
  proof (cases "x = y")
    case True
    with Cons.prems show ?thesis using length_concat_filter_le [of P ys] by simp
  next
    case False
    with Cons have "length (concat (filter P ys)) + length x \<le> length (concat ys)" by simp
    then show ?thesis by simp
  qed
qed

subsection \<open>The sample repository, evaluated\<close>

lemma sample_revList: "revList sampleRepo True = Some sampleListing"
  by code_simp

lemma sample_keys: "mapKeys (hashToPathOf sampleListing) = [''aaa'', ''bbb'', ''ccc'']"
  by code_simp

lemma sample_keys_nonempty: "[] \<notin> set (mapKeys (hashToPathOf sampleListing))"
  by (simp add: sample_keys)

lemma sample_chunks:
  "chunks 1 [''aaa'', ''bbb'', ''ccc''] = [[''aaa''], [''bbb''], [''ccc'']]"
  "chunks 2 [''aaa'', ''bbb'', ''ccc''] = [[''aaa'', ''bbb''], [''ccc'']]"
  by code_simp+

lemma sample_resolved:
  "batchResolved sampleRepo sampleSizes [''aaa'']"
  "batchResolved sampleRepo sampleSizes [''bbb'']"
  "batchResolved sampleRepo sampleSizes [''ccc'']"
  "batchResolved sampleRepo sampleSizes [''aaa'', ''bbb'']"
  by code_simp+

lemma sample_inventory: "getAllObjectsWith 2 sampleRepo True = Some (Inr sampleInventory)"
  by code_simp

lemma sample_paths:
  "pathsListed (listingLines sampleListing) ''aaa'' = [''first.txt'', ''second.txt'']"
  "pathsListed (listingLines sampleListing) ''bbb'' = [[]]"
  by code_simp+

text \<open>
  Claim C4: in every inventory the sizes do not increase from one entry to the next, and
  entries of equal size stand in the order in which they were pushed before the sort: the
  sort by descending size is stable. (The stability is the one that the language gives
  \<^verbatim>\<open>Array.prototype.sort\<close>.)
\<close>

theorem inventory_sorted_stable:
  assumes "revList R d = Some output"
    and "getAllObjectsWith batchSize R d = Some (Inr inventory)"
  shows "sorted_wrt (\<lambda>a b. obj_size a \<ge> obj_size b) inventory \<and>
         (\<forall>i. Suc i < length inventory \<longrightarrow> obj_size (inventory ! i) \<ge> obj_size (inventory ! Suc i)) \<and>
         (\<exists>pushed. pushedObjects batchSize R output = Some pushed \<and>
            set inventory = set pushed \<and> length inventory = length pushed \<and>
            (\<forall>k. filter (\<lambda>ob. obj_size ob = k) inventory = filter (\<lambda>ob. obj_size ob = k) pushed))"
proof -
  from getAllObjectsWith_inv [OF assms(2)] assms(1)
  obtain pushed where p: "pushedObjects batchSize R output = Some pushed"
      and inv: "inventory = sortWith bySizeDesc pushed"
    by auto
  have s: "sorted_wrt (\<lambda>a b. obj_size a \<ge> obj_size b) inventory"
    unfolding inv by (rule sorted_sortWith)
  then have "\<forall>i. Suc i < length inventory \<longrightarrow> obj_size (inventory ! i) \<ge> obj_size (inventory ! Suc i)"
    by (simp add: sorted_wrt_iff_nth_less)
  moreover have "set inventory = set pushed" "length inventory = length pushed"
      "\<forall>k. filter (\<lambda>ob. obj_size ob = k) inventory = filter (\<lambda>ob. obj_size ob = k) pushed"
    unfolding inv by (simp_all add: set_sortWith length_sortWith filter_sortWith)
  ultimately show ?thesis using s p by blast
qed

theorem inventory_sorted_stable_witness:
  "revList sampleRepo True = Some sampleListing \<and>
   getAllObjectsWith 2 sampleRepo True = Some (Inr sampleInventory) \<and>
   pushedObjects 2 sampleRepo sampleListing = Some samplePushed \<and>
   map obj_size sampleInventory = [200, 200, 10] \<and>
   sorted_wrt (\<lambda>a b. obj_size a \<ge> obj_size b) sampleInventory \<and>
   filter (\<lambda>ob. obj_size ob = 200) sampleInventory
     = filter (\<lambda>ob. obj_size ob = 200) samplePushed"
proof -
  have s: "map obj_size sampleInventory = [200, 200, 10]" by code_simp
  have p: "pushedObjects 2 sampleRepo sampleListing = Some samplePushed" by code_simp
  from inventory_sorted_stable [OF sample_revList sample_inventory]
  obtain pushed where srt: "sorted_wrt (\<lambda>a b. obj_size a \<ge> obj_size b) sampleInventory"
      and pp: "pushedObjects 2 sampleRepo sampleListing = Some pushed"
      and st: "\<forall>k. filter (\<lambda>ob. obj_size ob = k) sampleInventory
                    = filter (\<lambda>ob. obj_size ob = k) pushed"
    by blast
  from pp p have "pushed = samplePushed" by simp
  with st have "filter (\<lambda>ob. obj_size ob = 200) sampleInventory
                  = filter (\<lambda>ob. obj_size ob = 200) samplePushed"
    by blast
  with sample_revList sample_inventory p s srt show ?thesis by blast
qed

text \<open>
  Claim C10: every entry of the inventory has a non-empty path; when the listing gives
  the identifier of an entry no path (its last line for that identifier names none, as
  for commits and trees) or does not list the identifier at all, the path of the entry is
  the text \<^verbatim>\<open>(unknown)\<close>, which is classified \<^verbatim>\<open>other\<close>.
\<close>

theorem unknown_path:
  assumes "revList R d = Some output"
    and "getAllObjectsWith batchSize R d = Some (Inr inventory)"
    and "ob \<in> set inventory"
  shows "path ob \<noteq> [] \<and>
         (pathsListed (listingLines output) (hash ob) = [] \<or>
          last (pathsListed (listingLines output) (hash ob)) = []
            \<longrightarrow> path ob = ''(unknown)'' \<and> categorizeFile (path ob) = ''other'')"
proof -
  from getAllObjectsWith_inv [OF assms(2)] assms(1)
  obtain pushed where p: "pushedObjects batchSize R output = Some pushed"
      and inv: "inventory = sortWith bySizeDesc pushed"
    by auto
  have pos: "0 < batchSize"
  proof (rule ccontr)
    assume "\<not> 0 < batchSize"
    then have z: "batchSize = 0" by simp
    show False
    proof (cases "0 < length (mapKeys (hashToPathOf output))")
      case True
      then have "pushedObjects batchSize R output = None"
        unfolding pushedObjects_def z by (subst sizeLoop.simps) simp
      with p show False by simp
    next
      case False
      then have "pushedObjects batchSize R output = Some []"
        unfolding pushedObjects_def by (subst sizeLoop.simps) simp
      with p inv assms(3) show False by (simp add: sortWith_def)
    qed
  qed
  from assms(3) have "ob \<in> set pushed" unfolding inv by (simp add: set_sortWith)
  with p pos obtain b where "ob \<in> set (batchObjects (catFile R) (hashToPathOf output) b)"
    by (auto simp: pushedObjects_chunks)
  then have pth: "path ob = pathOrUnknown (hashToPathOf output) (hash ob)"
    by (rule batchObjects_paths)
  have u: "categorizeFile ''(unknown)'' = ''other''" by code_simp
  from pth have "path ob \<noteq> []" by (simp add: pathOrUnknown_nonempty)
  moreover have "pathsListed (listingLines output) (hash ob) = [] \<or>
          last (pathsListed (listingLines output) (hash ob)) = []
            \<longrightarrow> path ob = ''(unknown)'' \<and> categorizeFile (path ob) = ''other''"
    using pth u by (simp add: pathOrUnknown_listed)
  ultimately show ?thesis by blast
qed

theorem unknown_path_witness:
  "revList sampleRepo True = Some sampleListing \<and>
   getAllObjectsWith 2 sampleRepo True = Some (Inr sampleInventory) \<and>
   hd sampleInventory = \<lparr>hash = ''bbb'', path = ''(unknown)'', obj_size = 200\<rparr> \<and>
   pathsListed (listingLines sampleListing) ''bbb'' = [[]] \<and>
   categorizeFile (path (hd sampleInventory)) = ''other''"
proof -
  have h: "hd sampleInventory = \<lparr>hash = ''bbb'', path = ''(unknown)'', obj_size = 200\<rparr>"
    by code_simp
  have m: "hd sampleInventory \<in> set sampleInventory" by code_simp
  have l: "last (pathsListed (listingLines sampleListing) (hash (hd sampleInventory))) = []"
    unfolding h by (simp add: sample_paths)
  from unknown_path [OF sample_revList sample_inventory m] l
  have "categorizeFile (path (hd sampleInventory)) = ''other''" by blast
  with sample_revList sample_inventory h sample_paths(2) show ?thesis by blast
qed

text \<open>
  Claim C7: when every size lookup succeeds, the inventory is the same, entry for entry
  and in the same order, for every batch size of at least 1: it is determined by the
  listed identifiers and their sizes alone.
\<close>

theorem batch_size_irrelevant:
  assumes "revList R d = Some output"
    and "[] \<notin> set (mapKeys (hashToPathOf output))"
    and "0 < m" and "0 < n"
    and "\<forall>b \<in> set (chunks m (mapKeys (hashToPathOf output))). batchResolved R sz b"
    and "\<forall>b \<in> set (chunks n (mapKeys (hashToPathOf output))). batchResolved R sz b"
  shows "getAllObjectsWith m R d = getAllObjectsWith n R d \<and>
         getAllObjectsWith n R d =
           Some (Inr (sortWith bySizeDesc
                        (map (sized (hashToPathOf output) sz) (mapKeys (hashToPathOf output)))))"
proof -
  have "pushedObjects m R output
          = Some (map (sized (hashToPathOf output) sz) (mapKeys (hashToPathOf output)))"
    using assms(3,2,5) by (rule pushed_all_resolved)
  with assms(1) have a: "getAllObjectsWith m R d =
           Some (Inr (sortWith bySizeDesc
                        (map (sized (hashToPathOf output) sz) (mapKeys (hashToPathOf output)))))"
    by (rule getAllObjectsWith_pushed)
  have "pushedObjects n R output
          = Some (map (sized (hashToPathOf output) sz) (mapKeys (hashToPathOf output)))"
    using assms(4,2,6) by (rule pushed_all_resolved)
  with assms(1) have b: "getAllObjectsWith n R d =
           Some (Inr (sortWith bySizeDesc
                        (map (sized (hashToPathOf output) sz) (mapKeys (hashToPathOf output)))))"
    by (rule getAllObjectsWith_pushed)
  from a b show ?thesis by simp
qed

theorem batch_size_irrelevant_witness:
  "revList sampleRepo True = Some sampleListing \<and>
   chunks 1 (mapKeys (hashToPathOf sampleListing)) = [[''aaa''], [''bbb''], [''ccc'']] \<and>
   chunks 2 (mapKeys (hashToPathOf sampleListing)) = [[''aaa'', ''bbb''], [''ccc'']] \<and>
   getAllObjectsWith 1 sampleRepo True = getAllObjectsWith 2 sampleRepo True \<and>
   getAllObjectsWith 2 sampleRepo True = Some (Inr sampleInventory)"
proof -
  have a1: "\<forall>b \<in> set (chunks 1 (mapKeys (hashToPathOf sampleListing))).
              batchResolved sampleRepo sampleSizes b"
    unfolding sample_keys sample_chunks by (simp add: sample_resolved)
  have a2: "\<forall>b \<in> set (chunks 2 (mapKeys (hashToPathOf sampleListing))).
              batchResolved sampleRepo sampleSizes b"
    unfolding sample_keys sample_chunks by (simp add: sample_resolved)
  have "0 < (1::nat)" "0 < (2::nat)" by simp_all
  from batch_size_irrelevant [OF sample_revList sample_keys_nonempty this a1 a2]
  have "getAllObjectsWith 1 sampleRepo True = getAllObjectsWith 2 sampleRepo True"
    by blast
  with sample_revList sample_inventory show ?thesis
    unfolding sample_keys sample_chunks by simp
qed

text \<open>
  Claim C6: when a batch of size lookups fails, no identifier of that batch has an entry
  in the inventory, the identifiers of every batch that is answered have theirs, the
  inventory holds exactly the resolved identifiers (fewer than were listed), and the
  command completes and reports as object count the length of that inventory.
\<close>

theorem failed_batch_dropped:
  assumes "isGitRepo R"
    and "revList R (includeDeleted opts) = Some output"
    and "[] \<notin> set (mapKeys (hashToPathOf output))"
    and "0 < batchSize"
    and "\<forall>b \<in> set (chunks batchSize (mapKeys (hashToPathOf output))).
           batchFails R b \<or> batchResolved R sz b"
    and "failed \<in> set (chunks batchSize (mapKeys (hashToPathOf output)))"
    and "batchFails R failed"
  shows "\<exists>inventory.
           getAllObjectsWith batchSize R (includeDeleted opts) = Some (Inr inventory) \<and>
           (\<forall>h \<in> set failed. \<forall>ob \<in> set inventory. hash ob \<noteq> h) \<and>
           (\<forall>b \<in> set (chunks batchSize (mapKeys (hashToPathOf output))).
              \<not> batchFails R b \<longrightarrow>
                (\<forall>h \<in> set b. sized (hashToPathOf output) sz h \<in> set inventory)) \<and>
           length inventory
             = length (concat (filter (\<lambda>b. \<not> batchFails R b)
                                 (chunks batchSize (mapKeys (hashToPathOf output))))) \<and>
           length inventory + length failed \<le> length (mapKeys (hashToPathOf output)) \<and>
           (\<exists>report. bloatCommandWith batchSize R opts = Some (Inr report) \<and>
              objectCount (stats report) = length inventory)"
proof -
  let ?htp = "hashToPathOf output"
  let ?cs = "chunks batchSize (mapKeys ?htp)"
  let ?ok = "concat (filter (\<lambda>b. \<not> batchFails R b) ?cs)"
  let ?pushed = "map (sized ?htp sz) ?ok"
  let ?inv = "sortWith bySizeDesc ?pushed"
  have p: "pushedObjects batchSize R output = Some ?pushed"
    using assms(4,3,5) by (rule pushed_of_answers)
  with assms(2) have g: "getAllObjectsWith batchSize R (includeDeleted opts) = Some (Inr ?inv)"
    by (rule getAllObjectsWith_pushed)
  have hashes: "hash ` set ?inv = set ?ok"
    by (simp add: set_sortWith image_image hash_sized)
  have dist: "distinct (concat ?cs)"
    using assms(4) by (simp add: concat_chunks keys_distinct)
  have absent: "\<forall>h \<in> set failed. \<forall>ob \<in> set ?inv. hash ob \<noteq> h"
  proof (intro ballI notI)
    fix h ob assume h: "h \<in> set failed" and ob: "ob \<in> set ?inv" and eq: "hash ob = h"
    from ob eq have "h \<in> set ?ok" using hashes by blast
    then obtain b where b: "b \<in> set ?cs" "\<not> batchFails R b" "h \<in> set b" by auto
    with assms(7) have "b \<noteq> failed" by blast
    with dist b(1) assms(6) have "set b \<inter> set failed = {}"
      by (simp add: distinct_concat_iff)
    with h b(3) show False by blast
  qed
  have present: "\<forall>b \<in> set ?cs. \<not> batchFails R b \<longrightarrow> (\<forall>h \<in> set b. sized ?htp sz h \<in> set ?inv)"
    by (auto simp: set_sortWith)
  have len: "length ?inv = length ?ok" by (simp add: length_sortWith)
  have "length ?ok + length failed \<le> length (concat ?cs)"
    using assms(6,7) by (simp add: length_concat_filter)
  then have smaller: "length ?inv + length failed \<le> length (mapKeys ?htp)"
    using assms(4) len by (simp add: concat_chunks)
  have "bloatCommandWith batchSize R opts
          = Some (Inr (analyze ?inv (getGitDirSize R) (getWorkingDirSize R) opts))"
    using assms(1) g by (simp add: bloatCommandWith_def)
  moreover have "objectCount (stats (analyze ?inv (getGitDirSize R) (getWorkingDirSize R) opts))
                   = length ?inv"
    by (simp add: analyze_def Let_def)
  ultimately have rep: "\<exists>report. bloatCommandWith batchSize R opts = Some (Inr report) \<and>
              objectCount (stats report) = length ?inv"
    by blast
  from g absent present len smaller rep show ?thesis by blast
qed

theorem failed_batch_dropped_witness:
  "isGitRepo flakyRepo \<and> revList flakyRepo (includeDeleted sampleOptions) = Some sampleListing \<and>
   chunks 2 (mapKeys (hashToPathOf sampleListing)) = [[''aaa'', ''bbb''], [''ccc'']] \<and>
   batchFails flakyRepo [''aaa'', ''bbb''] \<and> batchResolved flakyRepo sampleSizes [''ccc''] \<and>
   getAllObjectsWith 2 flakyRepo (includeDeleted sampleOptions) =
     Some (Inr [\<lparr>hash = ''ccc'', path = ''dir/x y.bin'', obj_size = 200\<rparr>]) \<and>
   map_option (map_sum id (objectCount \<circ> stats)) (bloatCommandWith 2 flakyRepo sampleOptions)
     = Some (Inr 1)"
proof -
  have i: "isGitRepo flakyRepo" by code_simp
  have r: "revList flakyRepo (includeDeleted sampleOptions) = Some sampleListing" by code_simp
  have c: "chunks 2 (mapKeys (hashToPathOf sampleListing)) = [[''aaa'', ''bbb''], [''ccc'']]"
    unfolding sample_keys sample_chunks by simp
  have f: "batchFails flakyRepo [''aaa'', ''bbb'']" by code_simp
  have s: "batchResolved flakyRepo sampleSizes [''ccc'']" by code_simp
  have a: "\<forall>b \<in> set (chunks 2 (mapKeys (hashToPathOf sampleListing))).
             batchFails flakyRepo b \<or> batchResolved flakyRepo sampleSizes b"
    unfolding c using f s by simp
  have m: "[''aaa'', ''bbb''] \<in> set (chunks 2 (mapKeys (hashToPathOf sampleListing)))"
    unfolding c by simp
  have "0 < (2::nat)" by simp
  from failed_batch_dropped [OF i r sample_keys_nonempty this a m f]
  obtain inventory report where
      g: "getAllObjectsWith 2 flakyRepo (includeDeleted sampleOptions) = Some (Inr inventory)"
      and b: "bloatCommandWith 2 flakyRepo sampleOptions = Some (Inr report)"
      and o: "objectCount (stats report) = length inventory"
    by blast
  have v: "getAllObjectsWith 2 flakyRepo (includeDeleted sampleOptions) =
     Some (Inr [\<lparr>hash = ''ccc'', path = ''dir/x y.bin'', obj_size = 200\<rparr>])"
    by code_simp
  with g have "inventory = [\<lparr>hash = ''ccc'', path = ''dir/x y.bin'', obj_size = 200\<rparr>]"
    by (simp only: option.inject sum.inject)
  then have "length inventory = 1" by (simp only: list.size One_nat_def add_0)
  with b o have "map_option (map_sum id (objectCount \<circ> stats)) (bloatCommandWith 2 flakyRepo sampleOptions)
     = Some (Inr 1)"
    by simp
  with i r c f s v show ?thesis by blast
qed

text \<open>
  When the size lookups succeed, every identifier that the listing names has exactly one
  entry in the inventory. When the listing names each identifier once, as the listing of
  git does, that entry carries the one path that the command reads from the line of the
  identifier (\<^verbatim>\<open>(unknown)\<close> when it reads none).
\<close>

lemma listed_once:
  "distinct (map lineHash lines) \<Longrightarrow> length (pathsListed lines h) \<le> 1"
proof (induction lines)
  case Nil
  then show ?case by (simp add: pathsListed_def)
next
  case (Cons line lines)
  show ?case
  proof (cases "lineHash line = h")
    case False
    with Cons show ?thesis by (simp add: pathsListed_def)
  next
    case True
    with Cons.prems have "h \<notin> lineHash ` set lines" by simp
    then have "\<forall>l \<in> set lines. lineHash l \<noteq> h" by blast
    then have "filter (\<lambda>l. lineHash l = h) lines = []" by (simp add: filter_empty_conv)
    with True show ?thesis by (simp add: pathsListed_def)
  qed
qed

lemma hd_last_short: "xs \<noteq> [] \<Longrightarrow> length xs \<le> 1 \<Longrightarrow> last xs = hd xs"
  by (cases xs) auto

lemma one_entry_per_identifier:
  assumes "revList R d = Some output"
    and "[] \<notin> set (mapKeys (hashToPathOf output))"
    and "0 < batchSize"
    and "\<forall>b \<in> set (chunks batchSize (mapKeys (hashToPathOf output))). batchResolved R sz b"
    and "pathsListed (listingLines output) h \<noteq> []"
  shows "\<exists>inventory.
           getAllObjectsWith batchSize R d = Some (Inr inventory) \<and>
           length (filter (\<lambda>ob. hash ob = h) inventory) = 1 \<and>
           (\<forall>ob \<in> set inventory. hash ob = h \<longrightarrow>
              path ob = pathOrUnknown (hashToPathOf output) h)"
proof -
  let ?htp = "hashToPathOf output"
  let ?pushed = "map (sized ?htp sz) (mapKeys ?htp)"
  let ?inv = "sortWith bySizeDesc ?pushed"
  have "pushedObjects batchSize R output = Some ?pushed"
    using assms(3,2,4) by (rule pushed_all_resolved)
  with assms(1) have g: "getAllObjectsWith batchSize R d = Some (Inr ?inv)"
    by (rule getAllObjectsWith_pushed)
  from assms(5) obtain line where "line \<in> set (listingLines output)" "lineHash line = h"
    by (auto simp: pathsListed_def filter_empty_conv)
  then have "h \<in> set (mapKeys ?htp)" unfolding keys_listing by blast
  then have "length (filter (\<lambda>y. y = h) (mapKeys ?htp)) = 1"
    using keys_distinct by (simp add: count_distinct)
  moreover have "length (filter (\<lambda>ob. hash ob = h) ?inv)
                   = length (filter (\<lambda>ob. hash ob = h) ?pushed)"
    by (rule count_sortWith)
  moreover have "length (filter (\<lambda>ob. hash ob = h) ?pushed)
                   = length (filter (\<lambda>y. y = h) (mapKeys ?htp))"
    by (rule count_map_sized)
  ultimately have one: "length (filter (\<lambda>ob. hash ob = h) ?inv) = 1"
    by (simp only:)
  have "\<forall>ob \<in> set ?inv. hash ob = h \<longrightarrow> path ob = pathOrUnknown ?htp h"
    by (auto simp: set_sortWith sized_def)
  with g one show ?thesis by blast
qed

lemma listed_once_path:
  assumes "distinct (map lineHash (listingLines output))"
    and "pathsListed (listingLines output) h \<noteq> []"
  shows "pathOrUnknown (hashToPathOf output) h
           = (if hd (pathsListed (listingLines output) h) = [] then ''(unknown)''
              else hd (pathsListed (listingLines output) h))"
proof -
  have "last (pathsListed (listingLines output) h) = hd (pathsListed (listingLines output) h)"
    using assms(2) listed_once [OF assms(1)] by (rule hd_last_short)
  with assms(2) show ?thesis by (simp add: pathOrUnknown_listed)
qed


end
